theory Spec2Isabelle
  imports Complex_Main "HOL-Library.Monad_Syntax"
begin

section \<open>Python lists and the option monad\<close>

text \<open>
  The board of \<^verbatim>\<open>go_game_gui.py\<close> is a Python list of lists of integers that is read and
  written by index. A Python index \<open>i\<close> into a list of length \<open>n\<close> addresses element \<open>i\<close> when
  \<open>0 \<le> i < n\<close>, element \<open>n + i\<close> when \<open>- n \<le> i < 0\<close>, and raises \<^verbatim>\<open>IndexError\<close>
  otherwise. \<^verbatim>\<open>IndexError\<close> is the only exception the modelled code can raise, so every
  operation that reads or writes the board returns an \<open>option\<close>, with \<open>None\<close> for the raised
  exception.
\<close>

definition py_get :: "'a list \<Rightarrow> int \<Rightarrow> 'a option" where
  "py_get xs i =
     (if 0 \<le> i \<and> i < int (length xs) then Some (xs ! nat i)
      else if - int (length xs) \<le> i \<and> i < 0 then Some (xs ! nat (int (length xs) + i))
      else None)"

definition py_set :: "'a list \<Rightarrow> int \<Rightarrow> 'a \<Rightarrow> 'a list option" where
  "py_set xs i v =
     (if 0 \<le> i \<and> i < int (length xs) then Some (xs[nat i := v])
      else if - int (length xs) \<le> i \<and> i < 0 then Some (xs[nat (int (length xs) + i) := v])
      else None)"

text \<open>\<^verbatim>\<open>range(n)\<close> for a Python integer \<open>n\<close>; empty when \<open>n \<le> 0\<close>.\<close>

definition py_range :: "int \<Rightarrow> int list" where
  "py_range n = map int [0..<nat n]"

text \<open>A \<^verbatim>\<open>for\<close> loop over a list whose body may raise: the state is threaded through
  the iterations and the first exception ends the loop.\<close>

fun fold_opt :: "('a \<Rightarrow> 's \<Rightarrow> 's option) \<Rightarrow> 'a list \<Rightarrow> 's \<Rightarrow> 's option" where
  "fold_opt f [] s = Some s"
| "fold_opt f (x # xs) s = (case f x s of None \<Rightarrow> None | Some s' \<Rightarrow> fold_opt f xs s')"

text \<open>A \<^verbatim>\<open>for\<close> loop that selects, in order, the elements passing a test that may raise.\<close>

fun filter_opt :: "('a \<Rightarrow> bool option) \<Rightarrow> 'a list \<Rightarrow> 'a list option" where
  "filter_opt p [] = Some []"
| "filter_opt p (x # xs) =
     (case p x of None \<Rightarrow> None
      | Some t \<Rightarrow> (case filter_opt p xs of None \<Rightarrow> None
                  | Some ys \<Rightarrow> Some (if t then x # ys else ys)))"

section \<open>The board: class \<^verbatim>\<open>GoBoard\<close>\<close>

type_synonym cells = "int list list"
type_synonym pos = "int \<times> int"

text \<open>
  The fields of \<^verbatim>\<open>GoBoard\<close>. Cell values and players are Python integers
  (0 empty, 1 Black, 2 White). \<^verbatim>\<open>previous_board\<close> and \<^verbatim>\<open>ko_position\<close> are
  \<^verbatim>\<open>None\<close> or a value. The field \<^verbatim>\<open>size\<close> is named \<open>bsize\<close> here.
\<close>

record GoBoard =
  bsize :: int
  board :: cells
  previous_board :: "cells option"
  current_player :: int
  captured_black :: int
  captured_white :: int
  move_history :: "(int \<times> int \<times> int) list"
  ko_position :: "pos option"

text \<open>\<^verbatim>\<open>GoBoard.__init__\<close>\<close>

definition GoBoard_init :: "int \<Rightarrow> GoBoard" where
  "GoBoard_init sz =
     \<lparr> bsize = sz,
       board = map (\<lambda>_. map (\<lambda>_. 0) (py_range sz)) (py_range sz),
       previous_board = None,
       current_player = 1,
       captured_black = 0,
       captured_white = 0,
       move_history = [],
       ko_position = None \<rparr>"

text \<open>\<^verbatim>\<open>GoBoard.copy\<close>: a fresh object with every field copied (deeply, for the two grids).\<close>

definition copy :: "GoBoard \<Rightarrow> GoBoard" where
  "copy b =
     (GoBoard_init (bsize b))
       \<lparr> board := board b,
         previous_board := previous_board b,
         current_player := current_player b,
         captured_black := captured_black b,
         captured_white := captured_white b,
         move_history := move_history b,
         ko_position := ko_position b \<rparr>"

text \<open>\<^verbatim>\<open>self.board[row][col]\<close> and \<^verbatim>\<open>self.board[row][col] = v\<close>\<close>

definition cell_get :: "cells \<Rightarrow> int \<Rightarrow> int \<Rightarrow> int option" where
  "cell_get bd row col = do { line \<leftarrow> py_get bd row; py_get line col }"

definition cell_set :: "cells \<Rightarrow> int \<Rightarrow> int \<Rightarrow> int \<Rightarrow> cells option" where
  "cell_set bd row col v =
     do { line \<leftarrow> py_get bd row; line' \<leftarrow> py_set line col v; py_set bd row line' }"

definition is_valid_position :: "GoBoard \<Rightarrow> int \<Rightarrow> int \<Rightarrow> bool" where
  "is_valid_position b row col \<longleftrightarrow> 0 \<le> row \<and> row < bsize b \<and> 0 \<le> col \<and> col < bsize b"

definition directions :: "(int \<times> int) list" where
  "directions = [(0, 1), (1, 0), (0, -1), (-1, 0)]"

definition get_neighbors :: "GoBoard \<Rightarrow> int \<Rightarrow> int \<Rightarrow> pos list" where
  "get_neighbors b row col =
     filter (\<lambda>(new_row, new_col). is_valid_position b new_row new_col)
       (map (\<lambda>(dr, dc). (row + dr, col + dc)) directions)"

text \<open>
  The nested loops \<^verbatim>\<open>for row in range(self.size): for col in range(self.size)\<close> visit the
  cells in row-major order.
\<close>

definition all_positions :: "GoBoard \<Rightarrow> pos list" where
  "all_positions b = List.product (py_range (bsize b)) (py_range (bsize b))"

subsection \<open>Groups and liberties\<close>

text \<open>
  A Python \<^verbatim>\<open>set\<close> of positions is modelled by a duplicate-free list; the source only tests
  membership, takes the size and iterates in ways that do not depend on the order.

  \<^verbatim>\<open>get_group\<close> is a flood fill driven by a stack. The stack is kept with its top at the
  head of the list: \<^verbatim>\<open>stack.pop()\<close> takes the head, and the neighbours appended one after the
  other end up reversed in front of the rest. In one iteration of the \<^verbatim>\<open>while\<close> loop the
  inner \<^verbatim>\<open>for\<close> loop reads each neighbour's cell and keeps those of the group's colour that are
  not in the group yet.
\<close>

definition same_color_new :: "GoBoard \<Rightarrow> int \<Rightarrow> pos list \<Rightarrow> pos \<Rightarrow> bool option" where
  "same_color_new b color grp p =
     do { v \<leftarrow> cell_get (board b) (fst p) (snd p); Some (v = color \<and> p \<notin> set grp) }"

definition valid_positions :: "GoBoard \<Rightarrow> pos set" where
  "valid_positions b = {0..<bsize b} \<times> {0..<bsize b}"

function get_group_loop :: "GoBoard \<Rightarrow> int \<Rightarrow> pos list \<Rightarrow> pos list \<Rightarrow> pos list option" where
  "get_group_loop b color [] grp = Some grp"
| "get_group_loop b color (p # stack) grp =
     (if p \<in> set grp then get_group_loop b color stack grp
      else case filter_opt (same_color_new b color (p # grp)) (get_neighbors b (fst p) (snd p)) of
             None \<Rightarrow> None
           | Some new \<Rightarrow> get_group_loop b color (rev new @ stack) (p # grp))"
  by pat_completeness auto

lemma filter_opt_subset: "filter_opt p xs = Some ys \<Longrightarrow> set ys \<subseteq> set xs"
  by (induction xs arbitrary: ys) (auto split: option.splits if_splits)

lemma get_neighbors_valid: "set (get_neighbors b r c) \<subseteq> valid_positions b"
  by (auto simp: get_neighbors_def valid_positions_def is_valid_position_def)

lemma finite_valid_positions: "finite (valid_positions b)"
  by (simp add: valid_positions_def)

text \<open>
  The loop ends: an iteration either drops a position that is already in the group from the
  stack, or moves a position that was not in the group into it, and positions outside the
  board are never pushed.
\<close>

termination get_group_loop
proof (relation "inv_image (less_than <*lex*> less_than)
         (\<lambda>(b, color, stack, grp).
            (card ((valid_positions b \<union> set stack) - set grp), length stack))",
       goal_cases)
  case 1
  show ?case by (intro wf_inv_image wf_lex_prod wf_less_than)
next
  case (2 b color p stack grp)
  then show ?case by simp
next
  case (3 b color p stack grp new)
  have sub: "set new \<subseteq> valid_positions b"
    using filter_opt_subset[OF 3(2)] get_neighbors_valid by blast
  have fin: "finite ((valid_positions b \<union> set (p # stack)) - set grp)"
    by (simp add: finite_valid_positions)
  have "(valid_positions b \<union> set (rev new @ stack)) - set (p # grp)
          \<subset> (valid_positions b \<union> set (p # stack)) - set grp"
    using sub 3(1) by auto
  then have "card ((valid_positions b \<union> set (rev new @ stack)) - set (p # grp))
          < card ((valid_positions b \<union> set (p # stack)) - set grp)"
    using fin by (rule psubset_card_mono[rotated])
  then show ?case by simp
qed

definition get_group :: "GoBoard \<Rightarrow> int \<Rightarrow> int \<Rightarrow> pos list option" where
  "get_group b row col =
     do { v \<leftarrow> cell_get (board b) row col;
          if v = 0 then Some [] else get_group_loop b v [(row, col)] [] }"

text \<open>
  \<^verbatim>\<open>count_liberties\<close>: the loops read, for each stone of the group in turn, the cells of
  its neighbours and collect the empty ones in a set; the result is the size of that set.
\<close>

definition is_empty_cell :: "GoBoard \<Rightarrow> pos \<Rightarrow> bool option" where
  "is_empty_cell b p = do { v \<leftarrow> cell_get (board b) (fst p) (snd p); Some (v = 0) }"

definition liberties :: "GoBoard \<Rightarrow> pos list \<Rightarrow> pos list option" where
  "liberties b grp =
     do { libs \<leftarrow> filter_opt (is_empty_cell b)
                   (concat (map (\<lambda>(row, col). get_neighbors b row col) grp));
          Some (remdups libs) }"

definition count_liberties :: "GoBoard \<Rightarrow> pos list \<Rightarrow> int option" where
  "count_liberties b grp = do { libs \<leftarrow> liberties b grp; Some (int (length libs)) }"

subsection \<open>Captures\<close>

text \<open>\<^verbatim>\<open>for r, c in group: self.board[r][c] = 0\<close>\<close>

definition clear_group :: "cells \<Rightarrow> pos list \<Rightarrow> cells option" where
  "clear_group bd grp = fold_opt (\<lambda>(r, c) bd'. cell_set bd' r c 0) grp bd"

text \<open>
  \<^verbatim>\<open>remove_captured_stones\<close>: the state of the double loop is the board (mutated in place),
  the set \<^verbatim>\<open>checked\<close> and \<^verbatim>\<open>captured_count\<close>.
\<close>

definition remove_step ::
  "int \<Rightarrow> pos \<Rightarrow> GoBoard \<times> pos list \<times> int \<Rightarrow> (GoBoard \<times> pos list \<times> int) option" where
  "remove_step opponent_color p st =
     (case st of (b, checked, captured_count) \<Rightarrow>
        do { v \<leftarrow> cell_get (board b) (fst p) (snd p);
             if v = opponent_color \<and> p \<notin> set checked then
               do { grp \<leftarrow> get_group b (fst p) (snd p);
                    let checked' = List.union checked grp;
                    n \<leftarrow> count_liberties b grp;
                    if n = 0 then
                      do { bd' \<leftarrow> clear_group (board b) grp;
                           Some (b\<lparr>board := bd'\<rparr>, checked', captured_count + int (length grp)) }
                    else Some (b, checked', captured_count) }
             else Some (b, checked, captured_count) })"

definition remove_captured_stones :: "GoBoard \<Rightarrow> int \<Rightarrow> (int \<times> GoBoard) option" where
  "remove_captured_stones b opponent_color =
     do { (b', checked, captured_count) \<leftarrow>
            fold_opt (remove_step opponent_color) (all_positions b) (b, [], 0);
          Some (captured_count, b') }"

subsection \<open>Legality\<close>

text \<open>
  The loop of \<^verbatim>\<open>would_be_suicide\<close> over the neighbours of the placed stone; it stops at
  the first opposing neighbour whose group has no liberty (\<^verbatim>\<open>break\<close>).
\<close>

fun would_capture_loop :: "GoBoard \<Rightarrow> int \<Rightarrow> pos list \<Rightarrow> bool option" where
  "would_capture_loop b opponent_color [] = Some False"
| "would_capture_loop b opponent_color ((nr, nc) # rest) =
     do { v \<leftarrow> cell_get (board b) nr nc;
          if v = opponent_color then
            do { opp_group \<leftarrow> get_group b nr nc;
                 n \<leftarrow> count_liberties b opp_group;
                 if n = 0 then Some True else would_capture_loop b opponent_color rest }
          else would_capture_loop b opponent_color rest }"

text \<open>
  \<^verbatim>\<open>would_be_suicide\<close> writes the stone into the board, inspects the position and writes 0
  back; it returns its answer together with the board it leaves behind.
\<close>

definition would_be_suicide :: "GoBoard \<Rightarrow> int \<Rightarrow> int \<Rightarrow> int \<Rightarrow> (bool \<times> GoBoard) option" where
  "would_be_suicide b row col color =
     do { bd1 \<leftarrow> cell_set (board b) row col color;
          let b1 = b\<lparr>board := bd1\<rparr>;
          grp \<leftarrow> get_group b1 row col;
          libs \<leftarrow> count_liberties b1 grp;
          let opponent_color = 3 - color;
          would_capture \<leftarrow> would_capture_loop b1 opponent_color (get_neighbors b1 row col);
          bd2 \<leftarrow> cell_set bd1 row col 0;
          Some (libs = 0 \<and> \<not> would_capture, b\<lparr>board := bd2\<rparr>) }"

definition is_valid_move :: "GoBoard \<Rightarrow> int \<Rightarrow> int \<Rightarrow> (bool \<times> GoBoard) option" where
  "is_valid_move b row col =
     do { v \<leftarrow> cell_get (board b) row col;
          if v \<noteq> 0 then Some (False, b)
          else if ko_position b = Some (row, col) then Some (False, b)
          else do { (suicide, b') \<leftarrow> would_be_suicide b row col (current_player b);
                    if suicide then Some (False, b') else Some (True, b') } }"

subsection \<open>Moves\<close>

text \<open>
  The ko search of \<^verbatim>\<open>make_move\<close>: the \<^verbatim>\<open>break\<close> leaves the inner loop over the columns
  only, so every row is scanned up to its first match and the last match found stays in
  \<^verbatim>\<open>ko_position\<close>; with no match the field keeps its value.
\<close>

fun ko_scan_row :: "cells \<Rightarrow> cells \<Rightarrow> int \<Rightarrow> int \<Rightarrow> int list \<Rightarrow> pos option \<Rightarrow> pos option option" where
  "ko_scan_row prev bd opponent_color r [] ko = Some ko"
| "ko_scan_row prev bd opponent_color r (c # cs) ko =
     do { v \<leftarrow> cell_get prev r c;
          if v = opponent_color then
            do { w \<leftarrow> cell_get bd r c;
                 if w = 0 then Some (Some (r, c))
                 else ko_scan_row prev bd opponent_color r cs ko }
          else ko_scan_row prev bd opponent_color r cs ko }"

definition ko_scan :: "GoBoard \<Rightarrow> cells \<Rightarrow> int \<Rightarrow> pos option option" where
  "ko_scan b prev opponent_color =
     fold_opt (\<lambda>r ko. ko_scan_row prev (board b) opponent_color r (py_range (bsize b)) ko)
       (py_range (bsize b)) (ko_position b)"

definition make_move :: "GoBoard \<Rightarrow> int \<Rightarrow> int \<Rightarrow> (bool \<times> GoBoard) option" where
  "make_move b row col =
     do { (valid, b0) \<leftarrow> is_valid_move b row col;
          if \<not> valid then Some (False, b0)
          else
            do { let prev = board b0;
                 let b1 = b0\<lparr>previous_board := Some prev\<rparr>;
                 bd2 \<leftarrow> cell_set (board b1) row col (current_player b1);
                 let b2 = b1\<lparr>board := bd2\<rparr>;
                 let opponent_color = 3 - current_player b2;
                 (captured, b3) \<leftarrow> remove_captured_stones b2 opponent_color;
                 let b4 = (if current_player b3 = 1
                           then b3\<lparr>captured_white := captured_white b3 + captured\<rparr>
                           else b3\<lparr>captured_black := captured_black b3 + captured\<rparr>);
                 ko \<leftarrow> (if captured = 1 then ko_scan b4 prev opponent_color else Some None);
                 let b5 = b4\<lparr>ko_position := ko\<rparr>;
                 let b6 = b5\<lparr>move_history := move_history b5 @ [(row, col, current_player b5)]\<rparr>;
                 let b7 = b6\<lparr>current_player := 3 - current_player b6\<rparr>;
                 Some (True, b7) } }"

text \<open>
  \<^verbatim>\<open>undo_move\<close> raises nothing. The loop over the history after the two counters are
  reset has the body \<^verbatim>\<open>pass\<close>.
\<close>

definition undo_move :: "GoBoard \<Rightarrow> bool \<times> GoBoard" where
  "undo_move b =
     (case previous_board b of
        None \<Rightarrow> (False, b)
      | Some prev \<Rightarrow>
          if move_history b = [] then (False, b)
          else (True, b\<lparr>move_history := butlast (move_history b),
                        board := prev,
                        current_player := 3 - current_player b,
                        captured_black := 0,
                        captured_white := 0,
                        ko_position := None\<rparr>))"

subsection \<open>Score and move generation\<close>



definition valid_step :: "pos \<Rightarrow> pos list \<times> GoBoard \<Rightarrow> (pos list \<times> GoBoard) option" where
  "valid_step p st =
     (case st of (valid_moves, b) \<Rightarrow>
        do { (ok, b') \<leftarrow> is_valid_move b (fst p) (snd p);
             Some (if ok then valid_moves @ [p] else valid_moves, b') })"

definition get_valid_moves :: "GoBoard \<Rightarrow> (pos list \<times> GoBoard) option" where
  "get_valid_moves b = fold_opt valid_step (all_positions b) ([], b)"

section \<open>The search engine: class \<^verbatim>\<open>MinimaxAI\<close>\<close>

text \<open>
  The search depth is a number of plies: the constructor's default is 2 and the callers pass
  1, 2 or 3, so it is a natural number here. The wall-clock time that \<^verbatim>\<open>get_best_move\<close>
  also returns is not modelled.
\<close>

record MinimaxAI =
  depth :: nat
  player :: int
  opponent :: int
  nodes_evaluated :: nat


subsection \<open>Evaluation\<close>

text \<open>
  The score of \<^verbatim>\<open>evaluate_board\<close> is a Python float built from integers and the constant
  3.5 by addition and subtraction; all values involved are multiples of 1/2 of small
  magnitude, which binary floating point represents exactly, so the score is a rational here.
\<close>

definition center_bonus :: "int \<Rightarrow> int \<Rightarrow> rat" where
  "center_bonus row col = (7 / 2 - of_int \<bar>row - 3\<bar>) + (7 / 2 - of_int \<bar>col - 3\<bar>)"

text \<open>1. Territory control (stones on board)\<close>

definition territory_step :: "MinimaxAI \<Rightarrow> GoBoard \<Rightarrow> pos \<Rightarrow> rat \<Rightarrow> rat option" where
  "territory_step ai b p score =
     do { v \<leftarrow> cell_get (board b) (fst p) (snd p);
          if v = player ai then Some (score + (10 + center_bonus (fst p) (snd p)))
          else if v = opponent ai then Some (score - (10 + center_bonus (fst p) (snd p)))
          else Some score }"

text \<open>2. Captured stones\<close>

definition captured_term :: "MinimaxAI \<Rightarrow> GoBoard \<Rightarrow> rat \<Rightarrow> rat" where
  "captured_term ai b score =
     (if player ai = 1
      then score + of_int (captured_white b * 15) - of_int (captured_black b * 15)
      else score + of_int (captured_black b * 15) - of_int (captured_white b * 15))"

text \<open>3. Liberty count\<close>

definition liberty_step :: "MinimaxAI \<Rightarrow> GoBoard \<Rightarrow> pos \<Rightarrow> rat \<Rightarrow> rat option" where
  "liberty_step ai b p score =
     do { v \<leftarrow> cell_get (board b) (fst p) (snd p);
          if v = player ai then
            do { grp \<leftarrow> get_group b (fst p) (snd p);
                 libs \<leftarrow> count_liberties b grp;
                 Some (score + of_int (libs * 2)) }
          else if v = opponent ai then
            do { grp \<leftarrow> get_group b (fst p) (snd p);
                 libs \<leftarrow> count_liberties b grp;
                 Some (score - of_int (libs * 2)) }
          else Some score }"

text \<open>4. Corner and edge control\<close>

definition corners :: "GoBoard \<Rightarrow> pos list" where
  "corners b = [(0, 0), (0, bsize b - 1), (bsize b - 1, 0), (bsize b - 1, bsize b - 1)]"

definition corner_step :: "MinimaxAI \<Rightarrow> GoBoard \<Rightarrow> pos \<Rightarrow> rat \<Rightarrow> rat option" where
  "corner_step ai b p score =
     do { v \<leftarrow> cell_get (board b) (fst p) (snd p);
          if v = player ai then Some (score + 5)
          else if v = opponent ai then Some (score - 5)
          else Some score }"

definition evaluate_board :: "MinimaxAI \<Rightarrow> GoBoard \<Rightarrow> rat option" where
  "evaluate_board ai b =
     do { score \<leftarrow> fold_opt (territory_step ai b) (all_positions b) 0;
          let score = captured_term ai b score;
          score \<leftarrow> fold_opt (liberty_step ai b) (all_positions b) score;
          fold_opt (corner_step ai b) (corners b) score }"

subsection \<open>Search\<close>

text \<open>
  The values handled by the search are floats that include \<^verbatim>\<open>float('-inf')\<close> and
  \<^verbatim>\<open>float('inf')\<close>: the rationals extended by the two infinities, in their usual order.
\<close>

datatype ext = MInf | Fin rat | PInf

instantiation ext :: linorder
begin

fun less_eq_ext :: "ext \<Rightarrow> ext \<Rightarrow> bool" where
  "less_eq_ext MInf _ = True"
| "less_eq_ext (Fin x) MInf = False"
| "less_eq_ext (Fin x) (Fin y) = (x \<le> y)"
| "less_eq_ext (Fin x) PInf = True"
| "less_eq_ext PInf PInf = True"
| "less_eq_ext PInf _ = False"

definition less_ext :: "ext \<Rightarrow> ext \<Rightarrow> bool" where
  "less_ext a b \<longleftrightarrow> a \<le> b \<and> \<not> b \<le> a"

instance
proof
  fix x y z :: ext
  show "(x < y) = (x \<le> y \<and> \<not> y \<le> x)" by (simp add: less_ext_def)
  show "x \<le> x" by (cases x) simp_all
  show "x \<le> y \<Longrightarrow> y \<le> z \<Longrightarrow> x \<le> z" by (cases x; cases y; cases z) simp_all
  show "x \<le> y \<Longrightarrow> y \<le> x \<Longrightarrow> x = y" by (cases x; cases y) simp_all
  show "x \<le> y \<or> y \<le> x" by (cases x; cases y) auto
qed

end

text \<open>
  The search threads the counter \<^verbatim>\<open>self.nodes_evaluated\<close> through all calls: every function
  below takes the counter and returns it, updated, as the last component of its result.

  The two \<^verbatim>\<open>for\<close> loops of \<^verbatim>\<open>minimax\<close>, over the moves that are left. \<open>rec\<close> is the
  recursive call one ply deeper.
\<close>

type_synonym search_result = "ext \<times> pos option \<times> nat"

fun max_loop ::
  "(GoBoard \<Rightarrow> ext \<Rightarrow> ext \<Rightarrow> nat \<Rightarrow> search_result option) \<Rightarrow> GoBoard \<Rightarrow> pos list \<Rightarrow>
     ext \<Rightarrow> ext \<Rightarrow> ext \<Rightarrow> pos option \<Rightarrow> nat \<Rightarrow> search_result option" where
  "max_loop rec b [] alpha beta max_eval best_move n = Some (max_eval, best_move, n)"
| "max_loop rec b (move # rest) alpha beta max_eval best_move n =
     do { (_, new_board) \<leftarrow> make_move (copy b) (fst move) (snd move);
          (eval_score, _, n') \<leftarrow> rec new_board alpha beta n;
          let (max_eval', best_move') =
                (if eval_score > max_eval then (eval_score, Some move) else (max_eval, best_move));
          let alpha' = max alpha eval_score;
          if beta \<le> alpha' then Some (max_eval', best_move', n')
          else max_loop rec b rest alpha' beta max_eval' best_move' n' }"

fun min_loop ::
  "(GoBoard \<Rightarrow> ext \<Rightarrow> ext \<Rightarrow> nat \<Rightarrow> search_result option) \<Rightarrow> GoBoard \<Rightarrow> pos list \<Rightarrow>
     ext \<Rightarrow> ext \<Rightarrow> ext \<Rightarrow> pos option \<Rightarrow> nat \<Rightarrow> search_result option" where
  "min_loop rec b [] alpha beta min_eval best_move n = Some (min_eval, best_move, n)"
| "min_loop rec b (move # rest) alpha beta min_eval best_move n =
     do { (_, new_board) \<leftarrow> make_move (copy b) (fst move) (snd move);
          (eval_score, _, n') \<leftarrow> rec new_board alpha beta n;
          let (min_eval', best_move') =
                (if eval_score < min_eval then (eval_score, Some move) else (min_eval, best_move));
          let beta' = min beta eval_score;
          if beta' \<le> alpha then Some (min_eval', best_move', n')
          else min_loop rec b rest alpha beta' min_eval' best_move' n' }"

text \<open>\<^verbatim>\<open>return self.evaluate_board(board), None\<close>\<close>

definition leaf :: "MinimaxAI \<Rightarrow> GoBoard \<Rightarrow> nat \<Rightarrow> search_result option" where
  "leaf ai b n = do { v \<leftarrow> evaluate_board ai b; Some (Fin v, None, n) }"

fun minimax ::
  "MinimaxAI \<Rightarrow> GoBoard \<Rightarrow> nat \<Rightarrow> ext \<Rightarrow> ext \<Rightarrow> bool \<Rightarrow> nat \<Rightarrow> search_result option" where
  "minimax ai b 0 alpha beta maximizing n = leaf ai b (n + 1)"
| "minimax ai b (Suc d) alpha beta maximizing n =
     do { (valid_moves, b') \<leftarrow> get_valid_moves b;
          if valid_moves = [] then leaf ai b' (n + 1)
          else if maximizing then
            max_loop (\<lambda>nb a be k. minimax ai nb d a be False k) b' valid_moves
              alpha beta MInf None (n + 1)
          else
            min_loop (\<lambda>nb a be k. minimax ai nb d a be True k) b' valid_moves
              alpha beta PInf None (n + 1) }"

definition get_best_move :: "MinimaxAI \<Rightarrow> GoBoard \<Rightarrow> (pos option \<times> nat) option" where
  "get_best_move ai b =
     do { (_, best_move, n) \<leftarrow> minimax ai b (depth ai) MInf PInf True 0;
          Some (best_move, n) }"

subsection \<open>Exhaustive minimax\<close>

text \<open>
  The search without pruning that the specification compares \<^verbatim>\<open>minimax\<close> with: the same
  recursion, move order and tie-breaking (a later move replaces the best one only when its
  value is strictly better), with no window and no cutoff, so that every move of every node
  is searched.
\<close>

fun max_loop_exhaustive ::
  "(GoBoard \<Rightarrow> nat \<Rightarrow> search_result option) \<Rightarrow> GoBoard \<Rightarrow> pos list \<Rightarrow>
     ext \<Rightarrow> pos option \<Rightarrow> nat \<Rightarrow> search_result option" where
  "max_loop_exhaustive rec b [] max_eval best_move n = Some (max_eval, best_move, n)"
| "max_loop_exhaustive rec b (move # rest) max_eval best_move n =
     do { (_, new_board) \<leftarrow> make_move (copy b) (fst move) (snd move);
          (eval_score, _, n') \<leftarrow> rec new_board n;
          let (max_eval', best_move') =
                (if eval_score > max_eval then (eval_score, Some move) else (max_eval, best_move));
          max_loop_exhaustive rec b rest max_eval' best_move' n' }"

fun min_loop_exhaustive ::
  "(GoBoard \<Rightarrow> nat \<Rightarrow> search_result option) \<Rightarrow> GoBoard \<Rightarrow> pos list \<Rightarrow>
     ext \<Rightarrow> pos option \<Rightarrow> nat \<Rightarrow> search_result option" where
  "min_loop_exhaustive rec b [] min_eval best_move n = Some (min_eval, best_move, n)"
| "min_loop_exhaustive rec b (move # rest) min_eval best_move n =
     do { (_, new_board) \<leftarrow> make_move (copy b) (fst move) (snd move);
          (eval_score, _, n') \<leftarrow> rec new_board n;
          let (min_eval', best_move') =
                (if eval_score < min_eval then (eval_score, Some move) else (min_eval, best_move));
          min_loop_exhaustive rec b rest min_eval' best_move' n' }"

fun minimax_exhaustive ::
  "MinimaxAI \<Rightarrow> GoBoard \<Rightarrow> nat \<Rightarrow> bool \<Rightarrow> nat \<Rightarrow> search_result option" where
  "minimax_exhaustive ai b 0 maximizing n = leaf ai b (n + 1)"
| "minimax_exhaustive ai b (Suc d) maximizing n =
     do { (valid_moves, b') \<leftarrow> get_valid_moves b;
          if valid_moves = [] then leaf ai b' (n + 1)
          else if maximizing then
            max_loop_exhaustive (\<lambda>nb k. minimax_exhaustive ai nb d False k) b' valid_moves
              MInf None (n + 1)
          else
            min_loop_exhaustive (\<lambda>nb k. minimax_exhaustive ai nb d True k) b' valid_moves
              PInf None (n + 1) }"

section \<open>Specification-level notions\<close>

text \<open>
  \<^verbatim>\<open>GoBoard.__init__\<close> builds a square grid of \<open>bsize\<close> rows of \<open>bsize\<close> cells, and no
  operation changes the shape of the grid. A board of that shape is well formed.
  \<open>stone_at\<close> reads the cell of a position that is on the board.
\<close>


definition wf_cells :: "int \<Rightarrow> cells \<Rightarrow> bool" where
  "wf_cells sz bd \<longleftrightarrow> int (length bd) = sz \<and> list_all (\<lambda>line. int (length line) = sz) bd"

definition wf_board :: "GoBoard \<Rightarrow> bool" where
  "wf_board b \<longleftrightarrow> wf_cells (bsize b) (board b)"

definition stone_at :: "cells \<Rightarrow> pos \<Rightarrow> int" where
  "stone_at bd p = bd ! nat (fst p) ! nat (snd p)"

definition adjacent :: "pos \<Rightarrow> pos \<Rightarrow> bool" where
  "adjacent p q \<longleftrightarrow> \<bar>fst p - fst q\<bar> + \<bar>snd p - snd q\<bar> = 1"

definition linked :: "GoBoard \<Rightarrow> (pos \<times> pos) set" where
  "linked b = {(p, q). p \<in> valid_positions b \<and> q \<in> valid_positions b \<and> adjacent p q \<and>
                       stone_at (board b) p = stone_at (board b) q}"

definition group_of :: "GoBoard \<Rightarrow> pos \<Rightarrow> pos set" where
  "group_of b p = {q. (p, q) \<in> (linked b)\<^sup>*}"

definition liberty_set :: "GoBoard \<Rightarrow> pos set \<Rightarrow> pos set" where
  "liberty_set b G = {q \<in> valid_positions b. stone_at (board b) q = 0 \<and> (\<exists>p\<in>G. adjacent p q)}"

definition place_stone :: "GoBoard \<Rightarrow> pos \<Rightarrow> int \<Rightarrow> GoBoard" where
  "place_stone b p color =
     b\<lparr>board := (board b)[nat (fst p) := (board b ! nat (fst p))[nat (snd p) := color]]\<rparr>"

definition captures_at :: "GoBoard \<Rightarrow> pos \<Rightarrow> int \<Rightarrow> bool" where
  "captures_at b p color \<longleftrightarrow>
     (\<exists>q\<in>valid_positions b. adjacent p q \<and> stone_at (board (place_stone b p color)) q = 3 - color \<and>
        liberty_set (place_stone b p color) (group_of (place_stone b p color) q) = {})"

definition suicide_at :: "GoBoard \<Rightarrow> pos \<Rightarrow> int \<Rightarrow> bool" where
  "suicide_at b p color \<longleftrightarrow>
     liberty_set (place_stone b p color) (group_of (place_stone b p color) p) = {} \<and>
     \<not> captures_at b p color"

definition legal_at :: "GoBoard \<Rightarrow> pos \<Rightarrow> bool" where
  "legal_at b p \<longleftrightarrow>
     stone_at (board b) p = 0 \<and> ko_position b \<noteq> Some p \<and> \<not> suicide_at b p (current_player b)"

definition wf_player :: "GoBoard \<Rightarrow> bool" where
  "wf_player b \<longleftrightarrow> current_player b = 1 \<or> current_player b = 2"

definition changed :: "GoBoard \<Rightarrow> GoBoard \<Rightarrow> pos set" where
  "changed b b' = {q \<in> valid_positions b. stone_at (board b') q \<noteq> stone_at (board b) q}"

definition removal_of :: "GoBoard \<Rightarrow> int \<Rightarrow> GoBoard \<Rightarrow> bool" where
  "removal_of b0 opp b' \<longleftrightarrow>
     wf_board b' \<and> b' = b0\<lparr>board := board b'\<rparr> \<and>
     (\<forall>q\<in>changed b0 b'. stone_at (board b0) q = opp \<and> stone_at (board b') q = 0)"

definition vacated :: "GoBoard \<Rightarrow> cells \<Rightarrow> int \<Rightarrow> pos set" where
  "vacated b prev opp =
     {q \<in> valid_positions b. stone_at prev q = opp \<and> stone_at (board b) q = 0}"

definition stone_placed :: "GoBoard \<Rightarrow> cells \<Rightarrow> GoBoard" where
  "stone_placed b bd2 = b\<lparr>previous_board := Some (board b), board := bd2\<rparr>"

definition credit_captures :: "GoBoard \<Rightarrow> int \<Rightarrow> GoBoard" where
  "credit_captures b n =
     (if current_player b = 1 then b\<lparr>captured_white := captured_white b + n\<rparr>
      else b\<lparr>captured_black := captured_black b + n\<rparr>)"

definition finish_move :: "GoBoard \<Rightarrow> int \<Rightarrow> int \<Rightarrow> pos option \<Rightarrow> GoBoard" where
  "finish_move b row col ko =
     b\<lparr>ko_position := ko,
       move_history := move_history b @ [(row, col, current_player b)],
       current_player := 3 - current_player b\<rparr>"

text \<open>The position on the board that a Python index pair, possibly negative, addresses.\<close>

definition py_norm :: "int \<Rightarrow> int \<Rightarrow> int" where
  "py_norm sz i = (if 0 \<le> i then i else sz + i)"

text \<open>The number of cells of a colour, and the balance between stones, captures and moves.\<close>

definition count_stones :: "GoBoard \<Rightarrow> int \<Rightarrow> nat" where
  "count_stones b c = length (filter (\<lambda>q. stone_at (board b) q = c) (all_positions b))"

definition stone_balance :: "GoBoard \<Rightarrow> bool" where
  "stone_balance b \<longleftrightarrow>
     int (count_stones b 1) + int (count_stones b 2) + captured_black b + captured_white b =
       int (length (move_history b))"

text \<open>Row-major order of positions: rows ascending, columns ascending within a row.\<close>

definition row_major_less :: "pos \<Rightarrow> pos \<Rightarrow> bool" where
  "row_major_less p q \<longleftrightarrow> fst p < fst q \<or> (fst p = fst q \<and> snd p < snd q)"






section \<open>Example positions\<close>

text \<open>A board with two stones, used to run the operations on a concrete position.\<close>

definition board_occupied :: GoBoard where
  "board_occupied = (GoBoard_init 3)\<lparr>board := [[0, 1, 0], [2, 0, 0], [0, 0, 0]]\<rparr>"

text \<open>The empty 3 by 3 board, and the positions after the moves (0, 0) and (0, 1) and after taking
  the second move back.\<close>

definition board_empty3 :: GoBoard where
  "board_empty3 = GoBoard_init 3"

definition after_one :: GoBoard where
  "after_one = \<lparr> bsize = 3, board = [[1, 0, 0], [0, 0, 0], [0, 0, 0]],
       previous_board = Some [[0, 0, 0], [0, 0, 0], [0, 0, 0]], current_player = 2,
       captured_black = 0, captured_white = 0, move_history = [(0, 0, 1)],
       ko_position = None \<rparr>"

definition after_two :: GoBoard where
  "after_two = \<lparr> bsize = 3, board = [[1, 2, 0], [0, 0, 0], [0, 0, 0]],
       previous_board = Some [[1, 0, 0], [0, 0, 0], [0, 0, 0]], current_player = 1,
       captured_black = 0, captured_white = 0, move_history = [(0, 0, 1), (0, 1, 2)],
       ko_position = None \<rparr>"

definition after_undo :: GoBoard where
  "after_undo = after_one\<lparr>previous_board := Some [[1, 0, 0], [0, 0, 0], [0, 0, 0]]\<rparr>"

text \<open>A game on the 3 by 3 board in which Black captures a stone on the third move.\<close>

definition after_capture :: GoBoard where
  "after_capture = \<lparr> bsize = 3, board = [[0, 1, 0], [1, 0, 0], [0, 0, 2]],
       previous_board = Some [[0, 1, 0], [1, 0, 0], [0, 0, 0]], current_player = 1,
       captured_black = 0, captured_white = 1,
       move_history = [(0, 1, 1), (0, 0, 2), (1, 0, 1), (2, 2, 2)], ko_position = None \<rparr>"

definition capture_line :: "GoBoard option" where
  "capture_line =
     do { (_, b1) \<leftarrow> make_move board_empty3 0 1;
          (_, b2) \<leftarrow> make_move b1 0 0;
          (_, b3) \<leftarrow> make_move b2 1 0;
          (_, b4) \<leftarrow> make_move b3 2 2;
          Some b4 }"

text \<open>A position with a ko point at (0, 0), and two positions in which Black looks at the corner
  (0, 0): in the first the stone would have no liberty and capture nothing, in the second it
  would have no liberty either but capture the two White stones next to it.\<close>

definition board_ko :: GoBoard where
  "board_ko = \<lparr> bsize = 3, board = [[0, 1, 0], [1, 0, 0], [0, 0, 0]],
       previous_board = Some [[2, 1, 0], [0, 0, 0], [0, 0, 0]], current_player = 2,
       captured_black = 0, captured_white = 1,
       move_history = [(0, 1, 1), (0, 0, 2), (1, 0, 1)], ko_position = Some (0, 0) \<rparr>"

definition board_corner :: GoBoard where
  "board_corner = (GoBoard_init 3)\<lparr>board := [[0, 2, 0], [2, 0, 0], [0, 0, 0]]\<rparr>"

definition board_corner_capture :: GoBoard where
  "board_corner_capture = (GoBoard_init 3)\<lparr>board := [[0, 2, 1], [2, 1, 0], [1, 0, 0]]\<rparr>"

text \<open>Playing a list of moves one after the other; \<open>None\<close> when one of them is rejected
  or raises.\<close>

fun play :: "GoBoard \<Rightarrow> pos list \<Rightarrow> GoBoard option" where
  "play b [] = Some b"
| "play b ((row, col) # ms) =
     (case make_move b row col of Some (True, b') \<Rightarrow> play b' ms | _ \<Rightarrow> None)"

text \<open>Two games on the 3 by 3 board in which a single stone is captured at (0, 0): in the first
  one by Black's third move, in the second one by White's sixth move. The positions are named
  after the number of moves played.\<close>

definition ko_b2 :: GoBoard where
  "ko_b2 = \<lparr> bsize = 3, board = [[2, 0, 0], [1, 0, 0], [0, 0, 0]],
     previous_board = Some [[0, 0, 0], [1, 0, 0], [0, 0, 0]],
     current_player = 1, captured_black = 0, captured_white = 0,
     move_history = [(1, 0, 1), (0, 0, 2)], ko_position = None \<rparr>"

definition ko_b3 :: GoBoard where
  "ko_b3 = \<lparr> bsize = 3, board = [[0, 1, 0], [1, 0, 0], [0, 0, 0]],
     previous_board = Some [[2, 0, 0], [1, 0, 0], [0, 0, 0]],
     current_player = 2, captured_black = 0, captured_white = 1,
     move_history = [(1, 0, 1), (0, 0, 2), (0, 1, 1)], ko_position = Some (0, 0) \<rparr>"

definition ko_b4 :: GoBoard where
  "ko_b4 = \<lparr> bsize = 3, board = [[0, 1, 0], [1, 0, 0], [0, 0, 2]],
     previous_board = Some [[0, 1, 0], [1, 0, 0], [0, 0, 0]],
     current_player = 1, captured_black = 0, captured_white = 1,
     move_history = [(1, 0, 1), (0, 0, 2), (0, 1, 1), (2, 2, 2)], ko_position = None \<rparr>"

definition ko_b5 :: GoBoard where
  "ko_b5 = \<lparr> bsize = 3, board = [[0, 1, 0], [1, 0, 0], [1, 0, 2]],
     previous_board = Some [[0, 1, 0], [1, 0, 0], [0, 0, 2]],
     current_player = 2, captured_black = 0, captured_white = 1,
     move_history = [(1, 0, 1), (0, 0, 2), (0, 1, 1), (2, 2, 2), (2, 0, 1)],
     ko_position = None \<rparr>"

definition ko_a6 :: GoBoard where
  "ko_a6 = \<lparr> bsize = 3, board = [[0, 2, 1], [2, 0, 0], [2, 1, 0]],
     previous_board = Some [[1, 2, 1], [0, 0, 0], [2, 1, 0]],
     current_player = 1, captured_black = 1, captured_white = 0,
     move_history = [(0, 0, 1), (0, 1, 2), (0, 2, 1), (2, 0, 2), (2, 1, 1), (1, 0, 2)],
     ko_position = Some (0, 0) \<rparr>"

definition ko_a7 :: GoBoard where
  "ko_a7 = \<lparr> bsize = 3, board = [[0, 2, 1], [2, 1, 0], [2, 1, 0]],
     previous_board = Some [[0, 2, 1], [2, 0, 0], [2, 1, 0]],
     current_player = 2, captured_black = 1, captured_white = 0,
     move_history =
       [(0, 0, 1), (0, 1, 2), (0, 2, 1), (2, 0, 2), (2, 1, 1), (1, 0, 2), (1, 1, 1)],
     ko_position = None \<rparr>"

text \<open>The second corner position with Black's stone placed on (0, 0).\<close>

definition corner_placed :: GoBoard where
  "corner_placed = place_stone board_corner_capture (0, 0) 1"


section \<open>Reading and writing cells\<close>

lemma py_get_Some_set: "py_get xs i = Some x \<Longrightarrow> \<exists>ys. py_set xs i v = Some ys"
  by (auto simp: py_get_def py_set_def split: if_splits)

lemma py_set_length: "py_set xs i v = Some ys \<Longrightarrow> length ys = length xs"
  by (auto simp: py_set_def split: if_splits)

lemma py_set_get_same: "py_set xs i v = Some ys \<Longrightarrow> py_get ys i = Some v"
  by (auto simp: py_get_def py_set_def split: if_splits)

lemma py_set_restore:
  "py_get xs i = Some x \<Longrightarrow> py_set xs i v = Some ys \<Longrightarrow> py_set ys i x = Some xs"
  by (auto simp: py_get_def py_set_def split: if_splits)

lemma py_set_set: "py_set xs i v = Some ys \<Longrightarrow> py_set ys i w = py_set xs i w"
  by (auto simp: py_set_def split: if_splits)

lemma cell_get_Some_set:
  assumes "cell_get bd r c = Some x"
  shows "\<exists>bd'. cell_set bd r c v = Some bd'"
proof -
  from assms obtain line where l: "py_get bd r = Some line" and x: "py_get line c = Some x"
    by (auto simp: cell_get_def bind_eq_Some_conv)
  from py_get_Some_set[OF x] obtain line' where "py_set line c v = Some line'" by blast
  moreover from py_get_Some_set[OF l] obtain bd' where "py_set bd r line' = Some bd'" by blast
  ultimately show ?thesis using l by (auto simp: cell_set_def)
qed

lemma cell_set_restore:
  assumes "cell_get bd r c = Some x" and "cell_set bd r c v = Some bd1"
  shows "cell_set bd1 r c x = Some bd"
proof -
  from assms(1) obtain line where l: "py_get bd r = Some line" and x: "py_get line c = Some x"
    by (auto simp: cell_get_def bind_eq_Some_conv)
  from assms(2) l obtain line' where l': "py_set line c v = Some line'"
    and bd1: "py_set bd r line' = Some bd1"
    by (auto simp: cell_set_def bind_eq_Some_conv)
  have "py_get bd1 r = Some line'" using bd1 by (rule py_set_get_same)
  moreover have "py_set line' c x = Some line" using x l' by (rule py_set_restore)
  moreover have "py_set bd1 r line = Some bd" using l bd1 by (rule py_set_restore)
  ultimately show ?thesis by (simp add: cell_set_def)
qed

lemma cell_set_get_same: "cell_set bd r c v = Some bd1 \<Longrightarrow> cell_get bd1 r c = Some v"
  by (auto simp: cell_get_def cell_set_def bind_eq_Some_conv dest: py_set_get_same)


lemma valid_positions_iff:
  "(r, c) \<in> valid_positions b \<longleftrightarrow> 0 \<le> r \<and> r < bsize b \<and> 0 \<le> c \<and> c < bsize b"
  by (auto simp: valid_positions_def)

lemma set_py_range: "set (py_range n) = {0..<n}"
  by (auto simp: py_range_def image_int_atLeastLessThan)

lemma set_all_positions: "set (all_positions b) = valid_positions b"
  by (simp add: all_positions_def valid_positions_def set_py_range)

lemma wf_cells_get:
  assumes "wf_cells sz bd" "0 \<le> r" "r < sz" "0 \<le> c" "c < sz"
  shows "cell_get bd r c = Some (stone_at bd (r, c))"
proof -
  have "nat r < length bd" using assms by (auto simp: wf_cells_def)
  then have "bd ! nat r \<in> set bd" by simp
  then have "int (length (bd ! nat r)) = sz" using assms(1) by (auto simp: wf_cells_def list_all_iff)
  then show ?thesis using assms by (auto simp: cell_get_def py_get_def stone_at_def wf_cells_def)
qed

lemma wf_board_get:
  "wf_board b \<Longrightarrow> p \<in> valid_positions b \<Longrightarrow>
     cell_get (board b) (fst p) (snd p) = Some (stone_at (board b) p)"
  using wf_cells_get[of "bsize b" "board b" "fst p" "snd p"]
  by (cases p) (auto simp: wf_board_def valid_positions_iff)

lemma py_set_wf_line:
  "py_set bd r line = Some bd' \<Longrightarrow> wf_cells sz bd \<Longrightarrow> int (length line) = sz \<Longrightarrow> wf_cells sz bd'"
  by (auto simp: py_set_def wf_cells_def list_all_iff split: if_splits dest!: set_update_subset_insert[THEN subsetD])

lemma py_get_wf_line: "py_get bd r = Some line \<Longrightarrow> wf_cells sz bd \<Longrightarrow> int (length line) = sz"
  by (auto simp: py_get_def wf_cells_def list_all_iff split: if_splits)

lemma cell_set_wf:
  assumes "cell_set bd r c v = Some bd'" "wf_cells sz bd"
  shows "wf_cells sz bd'"
proof -
  from assms(1) obtain line line' where l: "py_get bd r = Some line"
    and l': "py_set line c v = Some line'" and bd': "py_set bd r line' = Some bd'"
    by (auto simp: cell_set_def bind_eq_Some_conv)
  have "int (length line') = sz"
    using py_set_length[OF l'] py_get_wf_line[OF l assms(2)] by simp
  with bd' assms(2) show ?thesis by (rule py_set_wf_line)
qed

section \<open>The legality test leaves the board as it was\<close>

lemma would_be_suicide_board:
  assumes "cell_get (board b) row col = Some 0"
    and "would_be_suicide b row col color = Some (s, b')"
  shows "b' = b"
proof -
  from assms(2) obtain bd1 bd2 where bd1: "cell_set (board b) row col color = Some bd1"
    and bd2: "cell_set bd1 row col 0 = Some bd2" and b': "b' = b\<lparr>board := bd2\<rparr>"
    by (auto simp: would_be_suicide_def bind_eq_Some_conv Let_def)
  have "cell_set bd1 row col 0 = Some (board b)"
    using assms(1) bd1 by (rule cell_set_restore)
  with bd2 b' show ?thesis by simp
qed

lemma is_valid_move_board:
  assumes "is_valid_move b row col = Some (ok, b')"
  shows "b' = b"
proof -
  from assms obtain v where v: "cell_get (board b) row col = Some v"
    by (auto simp: is_valid_move_def bind_eq_Some_conv)
  show ?thesis
  proof (cases "v \<noteq> 0 \<or> ko_position b = Some (row, col)")
    case True
    with assms v show ?thesis by (auto simp: is_valid_move_def split: if_splits)
  next
    case False
    with assms v obtain s where "would_be_suicide b row col (current_player b) = Some (s, b')"
      by (auto simp: is_valid_move_def bind_eq_Some_conv split: if_splits)
    moreover from False v have "cell_get (board b) row col = Some 0" by simp
    ultimately show ?thesis by (rule would_be_suicide_board[rotated])
  qed
qed

section \<open>Flood fill\<close>

lemma filter_opt_total:
  "(\<And>x. x \<in> set xs \<Longrightarrow> p x = Some (q x)) \<Longrightarrow> filter_opt p xs = Some (filter q xs)"
  by (induction xs) auto

lemma fold_opt_append:
  "fold_opt f (xs @ ys) s = (case fold_opt f xs s of None \<Rightarrow> None | Some s' \<Rightarrow> fold_opt f ys s')"
  by (induction xs arbitrary: s) (auto split: option.splits)

lemma adjacent_iff:
  "adjacent (r, c) q \<longleftrightarrow> q \<in> {(r, c + 1), (r + 1, c), (r, c - 1), (r - 1, c)}"
  by (cases q) (auto simp: adjacent_def abs_if split: if_splits)

lemma set_get_neighbors:
  "set (get_neighbors b r c) = {q \<in> valid_positions b. adjacent (r, c) q}"
proof -
  have "set (map (\<lambda>(dr, dc). (r + dr, c + dc)) directions) = {q. adjacent (r, c) q}"
    by (auto simp: directions_def adjacent_iff)
  moreover have "(case q of (new_row, new_col) \<Rightarrow> is_valid_position b new_row new_col)
                   \<longleftrightarrow> q \<in> valid_positions b" for q
    by (cases q) (simp add: valid_positions_iff is_valid_position_def)
  ultimately show ?thesis
    unfolding get_neighbors_def set_filter by blast
qed

lemma distinct_get_neighbors: "distinct (get_neighbors b r c)"
  by (auto simp: get_neighbors_def directions_def)

lemma adjacent_sym: "adjacent p q \<Longrightarrow> adjacent q p"
  by (auto simp: adjacent_def)

lemma same_color_new_wf:
  "wf_board b \<Longrightarrow> p \<in> valid_positions b \<Longrightarrow>
     same_color_new b color grp p = Some (stone_at (board b) p = color \<and> p \<notin> set grp)"
  by (simp add: same_color_new_def wf_board_get)

lemma neighbors_filter_wf:
  assumes "wf_board b"
  shows "filter_opt (same_color_new b color grp) (get_neighbors b r c) =
           Some (filter (\<lambda>q. stone_at (board b) q = color \<and> q \<notin> set grp) (get_neighbors b r c))"
proof (rule filter_opt_total)
  fix x assume "x \<in> set (get_neighbors b r c)"
  then have "x \<in> valid_positions b" using get_neighbors_valid by blast
  with assms show "same_color_new b color grp x = Some (stone_at (board b) x = color \<and> x \<notin> set grp)"
    by (rule same_color_new_wf)
qed

lemma get_group_loop_inv:
  "wf_board b \<Longrightarrow> C \<subseteq> valid_positions b \<Longrightarrow>
   (\<And>p. p \<in> C \<Longrightarrow> stone_at (board b) p = color) \<Longrightarrow>
   (\<And>p q. p \<in> C \<Longrightarrow> (p, q) \<in> linked b \<Longrightarrow> q \<in> C) \<Longrightarrow>
   set stack \<subseteq> C \<Longrightarrow> set grp \<subseteq> C \<Longrightarrow> distinct grp \<Longrightarrow>
   (\<And>g q. g \<in> set grp \<Longrightarrow> (g, q) \<in> linked b \<Longrightarrow> q \<in> set grp \<union> set stack) \<Longrightarrow>
   \<exists>g'. get_group_loop b color stack grp = Some g' \<and> distinct g' \<and> set g' \<subseteq> C \<and>
         set grp \<union> set stack \<subseteq> set g' \<and>
         (\<forall>g\<in>set g'. \<forall>q. (g, q) \<in> linked b \<longrightarrow> q \<in> set g')"
proof (induction b color stack grp rule: get_group_loop.induct)
  case (1 b color grp)
  then show ?case by auto
next
  case (2 b color p stack grp)
  note wf = "2.prems"(1) and C_valid = "2.prems"(2) and C_color = "2.prems"(3)
    and C_closed = "2.prems"(4) and stackC = "2.prems"(5) and grpC = "2.prems"(6)
    and dist = "2.prems"(7) and closed = "2.prems"(8)
  show ?case
  proof (cases "p \<in> set grp")
    case True
    have "\<exists>g'. get_group_loop b color stack grp = Some g' \<and> distinct g' \<and> set g' \<subseteq> C \<and>
               set grp \<union> set stack \<subseteq> set g' \<and>
               (\<forall>g\<in>set g'. \<forall>q. (g, q) \<in> linked b \<longrightarrow> q \<in> set g')"
    proof (rule "2.IH"(1)[OF True wf C_valid C_color C_closed])
      show "set stack \<subseteq> C" using stackC by simp
      show "set grp \<subseteq> C" by fact
      show "distinct grp" by fact
      fix g q assume "g \<in> set grp" "(g, q) \<in> linked b"
      then have "q \<in> set grp \<union> set (p # stack)" by (rule closed)
      with True show "q \<in> set grp \<union> set stack" by auto
    qed
    with True show ?thesis by auto
  next
    case False
    define new where "new = filter (\<lambda>q. stone_at (board b) q = color \<and> q \<notin> set (p # grp))
                              (get_neighbors b (fst p) (snd p))"
    have fo: "filter_opt (same_color_new b color (p # grp)) (get_neighbors b (fst p) (snd p)) = Some new"
      unfolding new_def using wf by (rule neighbors_filter_wf)
    have pC: "p \<in> C" using stackC by simp
    have new_linked: "(p, q) \<in> linked b" if "q \<in> set new" for q
    proof -
      from that have q: "q \<in> valid_positions b" "adjacent p q" "stone_at (board b) q = color"
        by (auto simp: new_def set_get_neighbors[of b "fst p" "snd p"])
      with pC C_valid C_color[OF pC] show ?thesis by (auto simp: linked_def)
    qed
    have "\<exists>g'. get_group_loop b color (rev new @ stack) (p # grp) = Some g' \<and> distinct g' \<and>
               set g' \<subseteq> C \<and> set (p # grp) \<union> set (rev new @ stack) \<subseteq> set g' \<and>
               (\<forall>g\<in>set g'. \<forall>q. (g, q) \<in> linked b \<longrightarrow> q \<in> set g')"
    proof (rule "2.IH"(2)[OF False fo wf C_valid C_color C_closed])
      show "set (rev new @ stack) \<subseteq> C"
        using stackC new_linked C_closed[OF pC] by auto
      show "set (p # grp) \<subseteq> C" using pC grpC by simp
      show "distinct (p # grp)" using False dist by simp
      fix g q assume g: "g \<in> set (p # grp)" and l: "(g, q) \<in> linked b"
      show "q \<in> set (p # grp) \<union> set (rev new @ stack)"
      proof (cases "g = p")
        case True
        with l have "q \<in> valid_positions b" "adjacent p q" "stone_at (board b) q = stone_at (board b) p"
          by (auto simp: linked_def)
        then have "q \<in> set (get_neighbors b (fst p) (snd p))" "stone_at (board b) q = color"
          using C_color[OF pC] by (auto simp: set_get_neighbors[of b "fst p" "snd p"])
        then show ?thesis by (auto simp: new_def)
      next
        case False
        with g have "g \<in> set grp" by simp
        then have "q \<in> set grp \<union> set (p # stack)" using l by (rule closed)
        then show ?thesis by auto
      qed
    qed
    then show ?thesis using False fo by auto
  qed
qed

section \<open>Groups and liberties computed by the code\<close>

lemma linked_valid: "(p, q) \<in> linked b \<Longrightarrow> p \<in> valid_positions b \<and> q \<in> valid_positions b"
  by (simp add: linked_def)

lemma linked_color: "(p, q) \<in> linked b \<Longrightarrow> stone_at (board b) q = stone_at (board b) p"
  by (simp add: linked_def)

lemma group_of_self: "p \<in> group_of b p"
  by (simp add: group_of_def)

lemma group_of_valid: "p \<in> valid_positions b \<Longrightarrow> q \<in> group_of b p \<Longrightarrow> q \<in> valid_positions b"
  unfolding group_of_def
proof -
  assume p: "p \<in> valid_positions b" and "q \<in> {q. (p, q) \<in> (linked b)\<^sup>*}"
  then have "(p, q) \<in> (linked b)\<^sup>*" by simp
  then show "q \<in> valid_positions b"
    by (induction rule: rtrancl_induct) (auto simp: p dest: linked_valid)
qed

lemma group_of_color: "q \<in> group_of b p \<Longrightarrow> stone_at (board b) q = stone_at (board b) p"
proof -
  assume "q \<in> group_of b p"
  then have "(p, q) \<in> (linked b)\<^sup>*" by (simp add: group_of_def)
  then show ?thesis
    by (induction rule: rtrancl_induct) (auto dest: linked_color)
qed

lemma group_of_closed: "q \<in> group_of b p \<Longrightarrow> (q, q') \<in> linked b \<Longrightarrow> q' \<in> group_of b p"
  by (auto simp: group_of_def intro: rtrancl_into_rtrancl)

lemma group_of_least:
  assumes "p \<in> S" and "\<And>g q. g \<in> S \<Longrightarrow> (g, q) \<in> linked b \<Longrightarrow> q \<in> S"
  shows "group_of b p \<subseteq> S"
proof
  fix q assume "q \<in> group_of b p"
  then have "(p, q) \<in> (linked b)\<^sup>*" by (simp add: group_of_def)
  then show "q \<in> S"
    by (induction rule: rtrancl_induct) (auto intro: assms)
qed

lemma get_group_loop_seed:
  assumes wf: "wf_board b" and p: "p \<in> valid_positions b"
  shows "\<exists>g. get_group_loop b (stone_at (board b) p) [p] [] = Some g \<and> distinct g \<and>
             set g = group_of b p"
proof -
  have "\<exists>g'. get_group_loop b (stone_at (board b) p) [p] [] = Some g' \<and> distinct g' \<and>
          set g' \<subseteq> group_of b p \<and> set [] \<union> set [p] \<subseteq> set g' \<and>
          (\<forall>g\<in>set g'. \<forall>q. (g, q) \<in> linked b \<longrightarrow> q \<in> set g')"
  proof (rule get_group_loop_inv[OF wf])
    show "group_of b p \<subseteq> valid_positions b" using group_of_valid[OF p] by blast
    show "\<And>q. q \<in> group_of b p \<Longrightarrow> stone_at (board b) q = stone_at (board b) p"
      by (rule group_of_color)
    show "\<And>q q'. q \<in> group_of b p \<Longrightarrow> (q, q') \<in> linked b \<Longrightarrow> q' \<in> group_of b p"
      by (rule group_of_closed)
    show "set [p] \<subseteq> group_of b p" by (simp add: group_of_self)
  qed simp_all
  then obtain g where g: "get_group_loop b (stone_at (board b) p) [p] [] = Some g" "distinct g"
    "set g \<subseteq> group_of b p" "p \<in> set g"
    "\<And>x q. x \<in> set g \<Longrightarrow> (x, q) \<in> linked b \<Longrightarrow> q \<in> set g"
    by auto
  have "group_of b p \<subseteq> set g" using g(4,5) by (rule group_of_least)
  with g show ?thesis by auto
qed

lemma get_group_wf:
  assumes "wf_board b" and "p \<in> valid_positions b"
  shows "\<exists>g. get_group b (fst p) (snd p) = Some g \<and> distinct g \<and>
             set g = (if stone_at (board b) p = 0 then {} else group_of b p)"
  using get_group_loop_seed[OF assms] assms
  by (auto simp: get_group_def wf_board_get)

lemma is_empty_cell_wf:
  "wf_board b \<Longrightarrow> p \<in> valid_positions b \<Longrightarrow> is_empty_cell b p = Some (stone_at (board b) p = 0)"
  by (simp add: is_empty_cell_def wf_board_get)

lemma liberties_wf:
  assumes wf: "wf_board b"
  shows "\<exists>l. liberties b grp = Some l \<and> distinct l \<and> set l = liberty_set b (set grp)"
proof -
  let ?ns = "concat (map (\<lambda>(row, col). get_neighbors b row col) grp)"
  have "filter_opt (is_empty_cell b) ?ns = Some (filter (\<lambda>q. stone_at (board b) q = 0) ?ns)"
  proof (rule filter_opt_total)
    fix x assume "x \<in> set ?ns"
    then have "x \<in> valid_positions b" using get_neighbors_valid by fastforce
    with wf show "is_empty_cell b x = Some (stone_at (board b) x = 0)" by (rule is_empty_cell_wf)
  qed
  moreover have "set (filter (\<lambda>q. stone_at (board b) q = 0) ?ns) = liberty_set b (set grp)"
    by (auto simp: liberty_set_def set_get_neighbors)
  ultimately show ?thesis by (simp add: liberties_def)
qed

lemma count_liberties_wf:
  assumes "wf_board b"
  shows "count_liberties b grp = Some (int (card (liberty_set b (set grp))))"
proof -
  from liberties_wf[OF assms] obtain l where "liberties b grp = Some l" "distinct l"
    "set l = liberty_set b (set grp)" by blast
  then show ?thesis by (auto simp: count_liberties_def distinct_card[symmetric])
qed

lemma finite_liberty_set: "finite (liberty_set b G)"
  by (rule finite_subset[OF _ finite_valid_positions[of b]]) (auto simp: liberty_set_def)

lemma count_liberties_zero:
  "wf_board b \<Longrightarrow> count_liberties b grp = Some n \<Longrightarrow> n = 0 \<longleftrightarrow> liberty_set b (set grp) = {}"
  by (auto simp: count_liberties_wf finite_liberty_set)

section \<open>The suicide test\<close>

lemma cell_set_valid:
  assumes "wf_cells sz bd" "0 \<le> r" "r < sz" "0 \<le> c" "c < sz"
  shows "cell_set bd r c v = Some (bd[nat r := (bd ! nat r)[nat c := v]])"
proof -
  have "nat r < length bd" using assms by (auto simp: wf_cells_def)
  then have "bd ! nat r \<in> set bd" by simp
  then have "int (length (bd ! nat r)) = sz" using assms(1) by (auto simp: wf_cells_def list_all_iff)
  then show ?thesis using assms by (auto simp: cell_set_def py_get_def py_set_def wf_cells_def)
qed

lemma cell_set_place:
  "wf_board b \<Longrightarrow> p \<in> valid_positions b \<Longrightarrow>
     cell_set (board b) (fst p) (snd p) v = Some (board (place_stone b p v))"
  using cell_set_valid[of "bsize b" "board b" "fst p" "snd p" v]
  by (cases p) (auto simp: wf_board_def valid_positions_iff place_stone_def)

lemma wf_place_stone: "wf_board b \<Longrightarrow> p \<in> valid_positions b \<Longrightarrow> wf_board (place_stone b p v)"
  using cell_set_place[of b p v] cell_set_wf[of "board b" "fst p" "snd p" v]
  by (auto simp: wf_board_def place_stone_def)

lemma bsize_place_stone [simp]: "bsize (place_stone b p v) = bsize b"
  by (simp add: place_stone_def)

lemma valid_positions_place_stone [simp]:
  "valid_positions (place_stone b p v) = valid_positions b"
  by (simp add: valid_positions_def)

lemma get_neighbors_bsize: "bsize b' = bsize b \<Longrightarrow> get_neighbors b' r c = get_neighbors b r c"
  by (simp add: get_neighbors_def is_valid_position_def)

lemma stone_at_place_stone:
  assumes "wf_board b" "p \<in> valid_positions b" "q \<in> valid_positions b"
  shows "stone_at (board (place_stone b p v)) q = (if q = p then v else stone_at (board b) q)"
proof -
  obtain r c where p: "p = (r, c)" by (cases p)
  obtain r' c' where q: "q = (r', c')" by (cases q)
  have len: "nat r < length (board b)" "nat r' < length (board b)"
    using assms by (auto simp: wf_board_def wf_cells_def p q valid_positions_iff)
  then have "board b ! nat r \<in> set (board b)" by simp
  then have "int (length (board b ! nat r)) = bsize b"
    using assms(1) by (auto simp: wf_board_def wf_cells_def list_all_iff)
  then have "nat c < length (board b ! nat r)"
    using assms by (auto simp: p valid_positions_iff)
  then show ?thesis using len assms
    by (auto simp: place_stone_def stone_at_def p q nth_list_update valid_positions_iff)
qed

lemma place_stone_twice:
  assumes "wf_board b" "p \<in> valid_positions b"
  shows "place_stone (place_stone b p v) p w = place_stone b p w"
proof -
  have "nat (fst p) < length (board b)"
    using assms by (cases p) (auto simp: wf_board_def wf_cells_def valid_positions_iff)
  then show ?thesis by (simp add: place_stone_def)
qed

lemma would_capture_loop_wf:
  assumes wf: "wf_board b" and opp: "opp \<noteq> 0"
  shows "set ns \<subseteq> valid_positions b \<Longrightarrow>
         would_capture_loop b opp ns =
           Some (\<exists>q\<in>set ns. stone_at (board b) q = opp \<and> liberty_set b (group_of b q) = {})"
proof (induction ns)
  case Nil
  then show ?case by simp
next
  case (Cons n ns)
  obtain nr nc where n: "n = (nr, nc)" by (cases n)
  have nv: "n \<in> valid_positions b" using Cons.prems by simp
  have rd: "cell_get (board b) nr nc = Some (stone_at (board b) n)"
    using wf_board_get[OF wf nv] by (simp add: n)
  have IH: "would_capture_loop b opp ns =
           Some (\<exists>q\<in>set ns. stone_at (board b) q = opp \<and> liberty_set b (group_of b q) = {})"
    using Cons by simp
  show ?case
  proof (cases "stone_at (board b) n = opp")
    case False
    then show ?thesis using rd IH by (simp add: n)
  next
    case True
    from get_group_wf[OF wf nv] True opp obtain g where
      g: "get_group b nr nc = Some g" "set g = group_of b n"
      by (auto simp: n)
    have cl: "count_liberties b g = Some (int (card (liberty_set b (group_of b n))))"
      using count_liberties_wf[OF wf, of g] g by simp
    show ?thesis
    proof (cases "liberty_set b (group_of b n) = {}")
      case True
      then show ?thesis using rd g cl \<open>stone_at (board b) n = opp\<close> by (simp add: n)
    next
      case False
      then have "card (liberty_set b (group_of b n)) \<noteq> 0"
        by (simp add: finite_liberty_set)
      then show ?thesis using rd g cl IH False \<open>stone_at (board b) n = opp\<close> by (auto simp: n)
    qed
  qed
qed

lemma would_be_suicide_wf:
  assumes wf: "wf_board b" and p: "p \<in> valid_positions b" and col: "color \<noteq> 0" "color \<noteq> 3"
  shows "would_be_suicide b (fst p) (snd p) color =
           Some (suicide_at b p color, place_stone b p 0)"
proof -
  let ?b1 = "place_stone b p color"
  have b1: "b\<lparr>board := board ?b1\<rparr> = ?b1" by (simp add: place_stone_def)
  have b0: "b\<lparr>board := board (place_stone b p 0)\<rparr> = place_stone b p 0"
    by (simp add: place_stone_def)
  have wf1: "wf_board ?b1" using wf p by (rule wf_place_stone)
  have p1: "p \<in> valid_positions ?b1" using p by simp
  have s1: "stone_at (board ?b1) p = color" using stone_at_place_stone[OF wf p p] by simp
  from get_group_wf[OF wf1 p1] s1 col obtain g where
    g: "get_group ?b1 (fst p) (snd p) = Some g" "set g = group_of ?b1 p" by auto
  have cl: "count_liberties ?b1 g = Some (int (card (liberty_set ?b1 (group_of ?b1 p))))"
    using count_liberties_wf[OF wf1, of g] g by simp
  have wc: "would_capture_loop ?b1 (3 - color) (get_neighbors ?b1 (fst p) (snd p)) =
              Some (captures_at b p color)"
  proof -
    have "would_capture_loop ?b1 (3 - color) (get_neighbors ?b1 (fst p) (snd p)) =
           Some (\<exists>q\<in>set (get_neighbors ?b1 (fst p) (snd p)).
                   stone_at (board ?b1) q = 3 - color \<and> liberty_set ?b1 (group_of ?b1 q) = {})"
      using col get_neighbors_valid[of ?b1] by (intro would_capture_loop_wf[OF wf1]) auto
    moreover have "(\<exists>q\<in>set (get_neighbors ?b1 (fst p) (snd p)).
                   stone_at (board ?b1) q = 3 - color \<and> liberty_set ?b1 (group_of ?b1 q) = {})
                 \<longleftrightarrow> captures_at b p color"
      by (auto simp: captures_at_def set_get_neighbors[of ?b1 "fst p" "snd p"])
    ultimately show ?thesis by simp
  qed
  have restore: "cell_set (board ?b1) (fst p) (snd p) 0 = Some (board (place_stone b p 0))"
    using cell_set_place[OF wf1 p1, of 0] place_stone_twice[OF wf p, of color 0] by simp
  have "(card (liberty_set ?b1 (group_of ?b1 p)) = 0) = (liberty_set ?b1 (group_of ?b1 p) = {})"
    by (simp add: finite_liberty_set)
  then show ?thesis
    using cell_set_place[OF wf p, of color] g cl wc restore b1 b0
    by (simp add: would_be_suicide_def suicide_at_def Let_def)
qed

section \<open>Legal moves\<close>

lemma is_valid_move_wf:
  assumes wf: "wf_board b" and p: "p \<in> valid_positions b" and pl: "wf_player b"
  shows "is_valid_move b (fst p) (snd p) = Some (legal_at b p, b)"
proof -
  have rd: "cell_get (board b) (fst p) (snd p) = Some (stone_at (board b) p)"
    using wf p by (rule wf_board_get)
  have col: "current_player b \<noteq> 0" "current_player b \<noteq> 3" using pl by (auto simp: wf_player_def)
  have ws: "would_be_suicide b (fst p) (snd p) (current_player b) =
              Some (suicide_at b p (current_player b), place_stone b p 0)"
    using wf p col by (rule would_be_suicide_wf)
  have "\<exists>b'. is_valid_move b (fst p) (snd p) = Some (legal_at b p, b')"
    using rd ws by (cases p) (auto simp: is_valid_move_def legal_at_def)
  then obtain b' where r: "is_valid_move b (fst p) (snd p) = Some (legal_at b p, b')" by blast
  then have "b' = b" by (rule is_valid_move_board)
  with r show ?thesis by simp
qed

lemma valid_moves_fold:
  assumes wf: "wf_board b" and pl: "wf_player b"
  shows "set ps \<subseteq> valid_positions b \<Longrightarrow>
         fold_opt valid_step ps (acc, b) = Some (acc @ filter (legal_at b) ps, b)"
proof (induction ps arbitrary: acc)
  case Nil
  then show ?case by simp
next
  case (Cons p ps)
  have "p \<in> valid_positions b" using Cons.prems by simp
  then have "is_valid_move b (fst p) (snd p) = Some (legal_at b p, b)"
    using wf pl by (intro is_valid_move_wf)
  then have "valid_step p (acc, b) = Some (if legal_at b p then acc @ [p] else acc, b)"
    by (simp add: valid_step_def)
  moreover have "fold_opt valid_step ps (if legal_at b p then acc @ [p] else acc, b) =
       Some ((if legal_at b p then acc @ [p] else acc) @ filter (legal_at b) ps, b)"
    using Cons.prems by (intro Cons.IH) simp
  ultimately show ?case by simp
qed

lemma get_valid_moves_wf:
  assumes "wf_board b" and "wf_player b"
  shows "get_valid_moves b = Some (filter (legal_at b) (all_positions b), b)"
  using valid_moves_fold[OF assms, of "all_positions b" "[]"]
  by (simp add: get_valid_moves_def set_all_positions)

lemma clear_group_wf:
  "wf_board b \<Longrightarrow> set g \<subseteq> valid_positions b \<Longrightarrow>
   \<exists>bd'. clear_group (board b) g = Some bd' \<and> wf_board (b\<lparr>board := bd'\<rparr>) \<and>
     (\<forall>q\<in>valid_positions b. stone_at bd' q = (if q \<in> set g then 0 else stone_at (board b) q))"
proof (induction g arbitrary: b)
  case Nil
  then show ?case by (simp add: clear_group_def)
next
  case (Cons p g)
  let ?b1 = "place_stone b p 0"
  have p: "p \<in> valid_positions b" using Cons.prems by simp
  have wf1: "wf_board ?b1" using Cons.prems(1) p by (rule wf_place_stone)
  have cs: "cell_set (board b) (fst p) (snd p) 0 = Some (board ?b1)"
    using Cons.prems(1) p by (rule cell_set_place)
  from Cons.IH[OF wf1] Cons.prems(2)
  obtain bd' where bd': "clear_group (board ?b1) g = Some bd'" "wf_board (?b1\<lparr>board := bd'\<rparr>)"
    "\<forall>q\<in>valid_positions b. stone_at bd' q = (if q \<in> set g then 0 else stone_at (board ?b1) q)"
    by auto
  have "clear_group (board b) (p # g) = Some bd'"
    using cs bd'(1) by (cases p) (simp add: clear_group_def)
  moreover have "?b1\<lparr>board := bd'\<rparr> = b\<lparr>board := bd'\<rparr>" by (simp add: place_stone_def)
  moreover have "stone_at bd' q = (if q \<in> set (p # g) then 0 else stone_at (board b) q)"
    if "q \<in> valid_positions b" for q
    using bd'(3) that stone_at_place_stone[OF Cons.prems(1) p that, of 0] by auto
  ultimately show ?case using bd'(2) by auto
qed

section \<open>Capture removal\<close>

lemma finite_changed: "finite (changed b b')"
  by (rule finite_subset[OF _ finite_valid_positions[of b]]) (auto simp: changed_def)

lemma removal_of_valid: "removal_of b0 opp b' \<Longrightarrow> valid_positions b' = valid_positions b0"
  by (metis GoBoard.select_convs(1) GoBoard.surjective GoBoard.update_convs(2) removal_of_def
      valid_positions_def)

lemma removal_of_refl: "wf_board b \<Longrightarrow> removal_of b opp b"
  by (simp add: removal_of_def changed_def)

lemma remove_step_inv:
  assumes opp: "opp \<noteq> 0" and p: "p \<in> valid_positions b0"
    and inv: "removal_of b0 opp b'" and n: "n = int (card (changed b0 b'))"
  shows "\<exists>b'' checked' n'. remove_step opp p (b', checked, n) = Some (b'', checked', n') \<and>
           removal_of b0 opp b'' \<and> n' = int (card (changed b0 b''))"
proof -
  have wf': "wf_board b'" and eq: "b' = b0\<lparr>board := board b'\<rparr>"
    and ch: "\<And>q. q \<in> changed b0 b' \<Longrightarrow> stone_at (board b0) q = opp \<and> stone_at (board b') q = 0"
    using inv by (auto simp: removal_of_def)
  have v: "valid_positions b' = valid_positions b0" using inv by (rule removal_of_valid)
  have p': "p \<in> valid_positions b'" using p v by simp
  have rd: "cell_get (board b') (fst p) (snd p) = Some (stone_at (board b') p)"
    using wf' p' by (rule wf_board_get)
  show ?thesis
  proof (cases "stone_at (board b') p = opp \<and> p \<notin> set checked")
    case False
    then show ?thesis using rd inv n by (auto simp: remove_step_def)
  next
    case True
    from get_group_wf[OF wf' p'] True opp obtain g where
      g: "get_group b' (fst p) (snd p) = Some g" "distinct g" "set g = group_of b' p"
      by auto
    have cl: "count_liberties b' g = Some (int (card (liberty_set b' (set g))))"
      using wf' by (rule count_liberties_wf)
    show ?thesis
    proof (cases "card (liberty_set b' (set g)) = 0")
      case False
      then show ?thesis using rd g cl True inv n by (auto simp: remove_step_def Let_def)
    next
      case zero: True
      have gv: "set g \<subseteq> valid_positions b'"
        using g(3) group_of_valid[OF p'] by auto
      have gc: "stone_at (board b') q = opp" if "q \<in> set g" for q
        using that g(3) group_of_color[of q b' p] True by simp
      from clear_group_wf[OF wf' gv] obtain bd'' where
        bd'': "clear_group (board b') g = Some bd''" "wf_board (b'\<lparr>board := bd''\<rparr>)"
        "\<And>q. q \<in> valid_positions b' \<Longrightarrow>
              stone_at bd'' q = (if q \<in> set g then 0 else stone_at (board b') q)"
        by blast
      let ?b'' = "b'\<lparr>board := bd''\<rparr>"
      have step: "remove_step opp p (b', checked, n) =
                    Some (?b'', List.union checked g, n + int (length g))"
        using rd g cl True zero bd''(1) by (simp add: remove_step_def Let_def)
      have g_unch: "q \<notin> changed b0 b'" if "q \<in> set g" for q
        using ch[of q] gc[OF that] opp by auto
      have ch'': "changed b0 ?b'' = changed b0 b' \<union> set g"
      proof -
        have "q \<in> changed b0 ?b'' \<longleftrightarrow> q \<in> changed b0 b' \<or> q \<in> set g" for q
        proof (cases "q \<in> valid_positions b0")
          case False
          then show ?thesis using gv v by (auto simp: changed_def)
        next
          case qv: True
          show ?thesis
          proof (cases "q \<in> set g")
            case True
            have "stone_at (board b0) q = opp" using g_unch[OF True] gc[OF True] qv
              by (auto simp: changed_def)
            then show ?thesis using True bd''(3)[of q] qv v opp by (auto simp: changed_def)
          next
            case False
            then show ?thesis using bd''(3)[of q] qv v by (auto simp: changed_def)
          qed
        qed
        then show ?thesis by blast
      qed
      have disj: "changed b0 b' \<inter> set g = {}" using g_unch by auto
      have "card (changed b0 ?b'') = card (changed b0 b') + length g"
        using ch'' disj g(2) by (simp add: card_Un_disjoint finite_changed distinct_card)
      moreover have "removal_of b0 opp ?b''"
        unfolding removal_of_def
      proof (intro conjI ballI)
        show "wf_board ?b''" by (rule bd''(2))
        show "?b'' = b0\<lparr>board := board ?b''\<rparr>" using eq
          by (metis GoBoard.select_convs(2) GoBoard.surjective GoBoard.update_convs(2))
      next
        fix q assume q: "q \<in> changed b0 ?b''"
        then have qv: "q \<in> valid_positions b'" using v by (simp add: changed_def)
        from q ch'' consider "q \<in> set g" | "q \<notin> set g" "q \<in> changed b0 b'" by auto
        then show "stone_at (board b0) q = opp" 
        proof cases
          case 1
          then show ?thesis using g_unch[OF 1] gc[OF 1] qv v by (auto simp: changed_def)
        next
          case 2
          then show ?thesis using ch by simp
        qed
        from q ch'' consider "q \<in> set g" | "q \<notin> set g" "q \<in> changed b0 b'" by auto
        then show "stone_at (board ?b'') q = 0"
        proof cases
          case 1
          then show ?thesis using bd''(3)[OF qv] by simp
        next
          case 2
          then show ?thesis using bd''(3)[OF qv] ch by simp
        qed
      qed
      ultimately show ?thesis using step n by simp
    qed
  qed
qed

lemma remove_fold_inv:
  assumes opp: "opp \<noteq> 0"
  shows "set ps \<subseteq> valid_positions b0 \<Longrightarrow> removal_of b0 opp b' \<Longrightarrow>
         n = int (card (changed b0 b')) \<Longrightarrow>
         \<exists>b'' checked' n'. fold_opt (remove_step opp) ps (b', checked, n) = Some (b'', checked', n') \<and>
           removal_of b0 opp b'' \<and> n' = int (card (changed b0 b''))"
proof (induction ps arbitrary: b' checked n)
  case Nil
  then show ?case by simp
next
  case (Cons p ps)
  have "p \<in> valid_positions b0" using Cons.prems(1) by simp
  from remove_step_inv[OF opp this Cons.prems(2,3), of checked]
  obtain b1 c1 n1 where s: "remove_step opp p (b', checked, n) = Some (b1, c1, n1)"
    "removal_of b0 opp b1" "n1 = int (card (changed b0 b1))" by blast
  have "set ps \<subseteq> valid_positions b0" using Cons.prems(1) by simp
  from Cons.IH[OF this s(2,3), of c1] s(1) show ?case by simp
qed

lemma remove_captured_stones_wf:
  assumes "wf_board b" and "opp \<noteq> 0"
  shows "\<exists>b'. remove_captured_stones b opp = Some (int (card (changed b b')), b') \<and>
              removal_of b opp b'"
proof -
  have "changed b b = {}" by (simp add: changed_def)
  then have "(0::int) = int (card (changed b b))" by simp
  from remove_fold_inv[OF assms(2) _ removal_of_refl[OF assms(1)] this, of "all_positions b" "[]"]
  show ?thesis by (auto simp: remove_captured_stones_def set_all_positions)
qed

section \<open>The ko search\<close>

lemma find_unique:
  assumes "\<And>x. x \<in> set xs \<Longrightarrow> P x \<longleftrightarrow> x = a"
  shows "find P xs = (if a \<in> set xs then Some a else None)"
  using assms by (induction xs) auto

lemma ko_scan_row_find:
  assumes "wf_cells sz prev" "wf_cells sz bd" "0 \<le> r" "r < sz"
  shows "set cs \<subseteq> {0..<sz} \<Longrightarrow>
         ko_scan_row prev bd opp r cs ko =
           Some (case find (\<lambda>c. stone_at prev (r, c) = opp \<and> stone_at bd (r, c) = 0) cs of
                   None \<Rightarrow> ko | Some c \<Rightarrow> Some (r, c))"
proof (induction cs)
  case Nil
  then show ?case by simp
next
  case (Cons c cs)
  have c: "0 \<le> c" "c < sz" using Cons.prems by auto
  have "cell_get prev r c = Some (stone_at prev (r, c))"
    using assms(1,3,4) c by (rule wf_cells_get)
  moreover have "cell_get bd r c = Some (stone_at bd (r, c))"
    using assms(2,3,4) c by (rule wf_cells_get)
  ultimately show ?case using Cons by auto
qed

lemma ko_scan_total:
  assumes "wf_board b" "wf_cells (bsize b) prev"
  shows "\<exists>k. ko_scan b prev opp = Some k"
proof -
  have "set rs \<subseteq> {0..<bsize b} \<Longrightarrow>
        \<exists>k. fold_opt (\<lambda>r ko. ko_scan_row prev (board b) opp r (py_range (bsize b)) ko) rs ko = Some k"
    for rs ko
  proof (induction rs arbitrary: ko)
    case Nil
    then show ?case by simp
  next
    case (Cons r rs)
    have "0 \<le> r" "r < bsize b" using Cons.prems by auto
    from ko_scan_row_find[OF assms(2) assms(1)[unfolded wf_board_def] this, of "py_range (bsize b)" opp ko]
    show ?case using Cons by (auto simp: set_py_range)
  qed
  then show ?thesis by (simp add: ko_scan_def set_py_range)
qed

lemma ko_scan_unique:
  assumes wf: "wf_board b" and wfp: "wf_cells (bsize b) prev" and one: "vacated b prev opp = {q0}"
  shows "ko_scan b prev opp = Some (Some q0)"
proof -
  obtain r0 c0 where q0: "q0 = (r0, c0)" by (cases q0)
  have "q0 \<in> vacated b prev opp" using one by simp
  then have q0v: "0 \<le> r0" "r0 < bsize b" "0 \<le> c0" "c0 < bsize b"
    by (auto simp: vacated_def q0 valid_positions_iff)
  have row: "ko_scan_row prev (board b) opp r (py_range (bsize b)) ko =
               Some (if r = r0 then Some q0 else ko)"
    if r: "0 \<le> r" "r < bsize b" for r ko
  proof -
    have "(stone_at prev (r, c) = opp \<and> stone_at (board b) (r, c) = 0) \<longleftrightarrow> r = r0 \<and> c = c0"
      if "c \<in> set (py_range (bsize b))" for c
    proof -
      have "(r, c) \<in> valid_positions b" using that r by (simp add: set_py_range valid_positions_iff)
      then have "(r, c) \<in> vacated b prev opp \<longleftrightarrow>
                 stone_at prev (r, c) = opp \<and> stone_at (board b) (r, c) = 0"
        by (simp add: vacated_def)
      then show ?thesis using one by (auto simp: q0)
    qed
    then have "find (\<lambda>c. stone_at prev (r, c) = opp \<and> stone_at (board b) (r, c) = 0)
                 (py_range (bsize b)) = (if r = r0 then Some c0 else None)"
      using find_unique[of "py_range (bsize b)"
          "\<lambda>c. stone_at prev (r, c) = opp \<and> stone_at (board b) (r, c) = 0" c0] q0v
      by (cases "r = r0") (auto simp: set_py_range find_None_iff)
    then show ?thesis
      using ko_scan_row_find[OF wfp wf[unfolded wf_board_def] r, of "py_range (bsize b)" opp ko]
      by (simp add: set_py_range q0)
  qed
  have "set rs \<subseteq> {0..<bsize b} \<Longrightarrow>
        fold_opt (\<lambda>r ko. ko_scan_row prev (board b) opp r (py_range (bsize b)) ko) rs ko =
          Some (if r0 \<in> set rs then Some q0 else ko)" for rs ko
  proof (induction rs arbitrary: ko)
    case Nil
    then show ?case by simp
  next
    case (Cons r rs)
    have "0 \<le> r" "r < bsize b" using Cons.prems by auto
    from row[OF this] Cons show ?case by auto
  qed
  from this[of "py_range (bsize b)" "ko_position b"] q0v show ?thesis
    by (simp add: ko_scan_def set_py_range)
qed

section \<open>Applying a move\<close>

lemma is_valid_move_True_empty:
  "is_valid_move b row col = Some (True, b0) \<Longrightarrow> cell_get (board b) row col = Some 0"
  by (auto simp: is_valid_move_def bind_eq_Some_conv split: if_splits)

lemma ko_scan_cong:
  "bsize b' = bsize b \<Longrightarrow> board b' = board b \<Longrightarrow> ko_position b' = ko_position b \<Longrightarrow>
     ko_scan b' prev opp = ko_scan b prev opp"
  by (simp add: ko_scan_def)

lemma make_move_unfold:
  assumes v: "is_valid_move b row col = Some (True, b)"
    and cs: "cell_set (board b) row col (current_player b) = Some bd2"
    and rm: "remove_captured_stones (stone_placed b bd2) (3 - current_player b) = Some (n, b3)"
    and b3: "b3 = (stone_placed b bd2)\<lparr>board := board b3\<rparr>"
    and ko: "(if n = 1 then ko_scan b3 (board b) (3 - current_player b) else Some None) = Some ko"
  shows "make_move b row col = Some (True, finish_move (credit_captures b3 n) row col ko)"
proof -
  have f: "current_player b3 = current_player b" "captured_white b3 = captured_white b"
    "captured_black b3 = captured_black b" "move_history b3 = move_history b"
    "ko_position b3 = ko_position b" "bsize b3 = bsize b"
    by (subst b3, simp add: stone_placed_def)+
  show ?thesis
    unfolding make_move_def
    using v cs rm[unfolded stone_placed_def] ko
    by (auto simp: Let_def finish_move_def f credit_captures_def ko_scan_def split: if_splits)
qed

lemma make_move_legal:
  assumes wf: "wf_board b" and pl: "wf_player b"
    and ok: "is_valid_move b row col = Some (True, b0)"
  shows "\<exists>bd2 b3 ko.
           cell_set (board b) row col (current_player b) = Some bd2 \<and>
           wf_board (stone_placed b bd2) \<and>
           removal_of (stone_placed b bd2) (3 - current_player b) b3 \<and>
           (if card (changed (stone_placed b bd2) b3) = 1
            then ko_scan b3 (board b) (3 - current_player b) = Some ko else ko = None) \<and>
           make_move b row col =
             Some (True, finish_move
                     (credit_captures b3 (int (card (changed (stone_placed b bd2) b3)))) row col ko)"
proof -
  have b0: "b0 = b" using ok by (rule is_valid_move_board)
  have empty: "cell_get (board b) row col = Some 0" using ok by (rule is_valid_move_True_empty)
  from cell_get_Some_set[OF empty] obtain bd2
    where bd2: "cell_set (board b) row col (current_player b) = Some bd2" by blast
  let ?B2 = "stone_placed b bd2"
  have wf2: "wf_board ?B2"
    using cell_set_wf[OF bd2] wf by (simp add: wf_board_def stone_placed_def)
  have opp: "3 - current_player b \<noteq> 0" using pl by (auto simp: wf_player_def)
  from remove_captured_stones_wf[OF wf2 opp] obtain b3 where
    rm: "remove_captured_stones ?B2 (3 - current_player b) = Some (int (card (changed ?B2 b3)), b3)"
    and rem: "removal_of ?B2 (3 - current_player b) b3" by blast
  have b3: "b3 = ?B2\<lparr>board := board b3\<rparr>" and wf3: "wf_board b3"
    using rem by (simp_all add: removal_of_def)
  have sz3: "bsize b3 = bsize b" by (subst b3) (simp add: stone_placed_def)
  have "wf_cells (bsize b3) (board b)" using wf sz3 by (simp add: wf_board_def)
  from ko_scan_total[OF wf3 this] obtain k where
    k: "ko_scan b3 (board b) (3 - current_player b) = Some k" by blast
  define ko where "ko = (if card (changed ?B2 b3) = 1 then k else None)"
  have ko: "(if int (card (changed ?B2 b3)) = 1 then ko_scan b3 (board b) (3 - current_player b)
             else Some None) = Some ko"
    using k by (simp add: ko_def)
  have "make_move b row col =
          Some (True, finish_move (credit_captures b3 (int (card (changed ?B2 b3)))) row col ko)"
    using ok[unfolded b0] bd2 rm b3 ko by (rule make_move_unfold)
  moreover have "if card (changed ?B2 b3) = 1
      then ko_scan b3 (board b) (3 - current_player b) = Some ko else ko = None"
    using k by (simp add: ko_def)
  ultimately show ?thesis using bd2 wf2 rem by blast
qed

lemma removal_of_fields:
  assumes "removal_of (stone_placed b bd2) opp b3"
  shows "bsize b3 = bsize b" "previous_board b3 = Some (board b)"
    "current_player b3 = current_player b" "captured_white b3 = captured_white b"
    "captured_black b3 = captured_black b" "move_history b3 = move_history b"
    "ko_position b3 = ko_position b"
proof -
  have b3: "b3 = (stone_placed b bd2)\<lparr>board := board b3\<rparr>"
    using assms by (simp add: removal_of_def)
  show "bsize b3 = bsize b" "previous_board b3 = Some (board b)"
    "current_player b3 = current_player b" "captured_white b3 = captured_white b"
    "captured_black b3 = captured_black b" "move_history b3 = move_history b"
    "ko_position b3 = ko_position b"
    by (subst b3, simp add: stone_placed_def)+
qed

lemma make_move_legal_fields:
  assumes wf: "wf_board b" and pl: "wf_player b"
    and ok: "is_valid_move b row col = Some (True, b0)"
  shows "\<exists>b1. make_move b row col = Some (True, b1) \<and> wf_board b1 \<and> wf_player b1 \<and>
           bsize b1 = bsize b \<and> previous_board b1 = Some (board b) \<and>
           current_player b1 = 3 - current_player b \<and>
           move_history b1 = move_history b @ [(row, col, current_player b)]"
proof -
  from make_move_legal[OF assms] obtain bd2 b3 ko where
    rem: "removal_of (stone_placed b bd2) (3 - current_player b) b3"
    and mm: "make_move b row col =
             Some (True, finish_move
                     (credit_captures b3 (int (card (changed (stone_placed b bd2) b3)))) row col ko)"
    by blast
  let ?b1 = "finish_move (credit_captures b3 (int (card (changed (stone_placed b bd2) b3)))) row col ko"
  note f = removal_of_fields[OF rem]
  have "wf_board b3" using rem by (simp add: removal_of_def)
  then have "wf_board ?b1" by (simp add: wf_board_def finish_move_def credit_captures_def)
  moreover have "wf_player ?b1"
    using pl f by (auto simp: wf_player_def finish_move_def credit_captures_def)
  moreover have "bsize ?b1 = bsize b" "previous_board ?b1 = Some (board b)"
    "current_player ?b1 = 3 - current_player b"
    "move_history ?b1 = move_history b @ [(row, col, current_player b)]"
    using f by (simp_all add: finish_move_def credit_captures_def)
  ultimately show ?thesis using mm by blast
qed

section \<open>Moves and their undoing\<close>

lemma make_move_True_valid:
  assumes "make_move b row col = Some (True, b1)"
  shows "is_valid_move b row col = Some (True, b)"
proof -
  from assms obtain ok b0 where v: "is_valid_move b row col = Some (ok, b0)"
    by (auto simp: make_move_def bind_eq_Some_conv)
  then have "b0 = b" by (rule is_valid_move_board)
  moreover have ok using assms v by (cases ok) (auto simp: make_move_def)
  ultimately show ?thesis using v by simp
qed

lemma undo_move_after:
  assumes "previous_board b1 = Some prev" and "move_history b1 = h @ [m]"
  shows "undo_move b1 = (True, b1\<lparr>move_history := h, board := prev,
                                  current_player := 3 - current_player b1,
                                  captured_black := 0, captured_white := 0,
                                  ko_position := None\<rparr>)"
  using assms by (simp add: undo_move_def)

lemma board_occupied_wf: "wf_board board_occupied"
  by (simp add: wf_board_def wf_cells_def board_occupied_def GoBoard_init_def)

lemma board_occupied_player: "wf_player board_occupied"
  by (simp add: wf_player_def board_occupied_def GoBoard_init_def)

lemma board_occupied_legal: "is_valid_move board_occupied 1 1 = Some (True, board_occupied)"
  by code_simp

lemma cell_norm:
  assumes wf: "wf_board b" and rd: "cell_get (board b) row col = Some x"
  defines "p \<equiv> (py_norm (bsize b) row, py_norm (bsize b) col)"
  shows "p \<in> valid_positions b" and "stone_at (board b) p = x"
    and "cell_set (board b) row col v = Some (board (place_stone b p v))"
proof -
  from rd obtain line where l: "py_get (board b) row = Some line" and x: "py_get line col = Some x"
    by (auto simp: cell_get_def bind_eq_Some_conv)
  have len: "int (length (board b)) = bsize b" using wf by (simp add: wf_board_def wf_cells_def)
  have linelen: "int (length line) = bsize b"
    using py_get_wf_line[OF l] wf by (simp add: wf_board_def)
  have r: "0 \<le> py_norm (bsize b) row" "py_norm (bsize b) row < bsize b"
    and line: "line = board b ! nat (py_norm (bsize b) row)"
    using l len by (auto simp: py_get_def py_norm_def split: if_splits)
  have c: "0 \<le> py_norm (bsize b) col" "py_norm (bsize b) col < bsize b"
    and xeq: "x = line ! nat (py_norm (bsize b) col)"
    using x linelen by (auto simp: py_get_def py_norm_def split: if_splits)
  show "p \<in> valid_positions b" using r c by (simp add: p_def valid_positions_iff)
  show "stone_at (board b) p = x" using line xeq by (simp add: p_def stone_at_def)
  have "py_set line col v = Some (line[nat (py_norm (bsize b) col) := v])"
    using x linelen by (auto simp: py_get_def py_set_def py_norm_def split: if_splits)
  moreover have "py_set (board b) row l' = Some ((board b)[nat (py_norm (bsize b) row) := l'])" for l'
    using l len by (auto simp: py_get_def py_set_def py_norm_def split: if_splits)
  ultimately show "cell_set (board b) row col v = Some (board (place_stone b p v))"
    using l line by (simp add: cell_set_def place_stone_def p_def)
qed

lemma removal_keeps_stone:
  assumes rem: "removal_of B2 opp b3" and q: "q \<in> valid_positions B2"
    and ne: "stone_at (board B2) q \<noteq> opp"
  shows "stone_at (board b3) q = stone_at (board B2) q"
proof (rule ccontr)
  assume "stone_at (board b3) q \<noteq> stone_at (board B2) q"
  then have "q \<in> changed B2 b3" using q by (simp add: changed_def)
  then have "stone_at (board B2) q = opp" using rem by (simp add: removal_of_def)
  with ne show False by simp
qed

lemma make_move_changes_board:
  assumes wf: "wf_board b" and pl: "wf_player b"
    and mm: "make_move b row col = Some (True, b1)"
  shows "board b1 \<noteq> board b"
proof -
  have ok: "is_valid_move b row col = Some (True, b)" using mm by (rule make_move_True_valid)
  have empty: "cell_get (board b) row col = Some 0" using ok by (rule is_valid_move_True_empty)
  define p where "p = (py_norm (bsize b) row, py_norm (bsize b) col)"
  note n = cell_norm[OF wf empty, folded p_def]
  from make_move_legal[OF wf pl ok] mm obtain bd2 b3 ko where
    bd2: "cell_set (board b) row col (current_player b) = Some bd2"
    and rem: "removal_of (stone_placed b bd2) (3 - current_player b) b3"
    and b1: "b1 = finish_move
               (credit_captures b3 (int (card (changed (stone_placed b bd2) b3)))) row col ko"
    by auto
  have bd2': "bd2 = board (place_stone b p (current_player b))"
    using bd2 n(3)[of "current_player b"] by simp
  have pv: "p \<in> valid_positions (stone_placed b bd2)"
    using n(1) by (simp add: valid_positions_def stone_placed_def)
  have st: "stone_at (board (stone_placed b bd2)) p = current_player b"
    using stone_at_place_stone[OF wf n(1) n(1), of "current_player b"]
    by (simp add: bd2' stone_placed_def)
  have "current_player b \<noteq> 3 - current_player b" by presburger
  with st have "stone_at (board b3) p = current_player b"
    using removal_keeps_stone[OF rem pv] by simp
  then have "stone_at (board b1) p = current_player b"
    by (simp add: b1 finish_move_def credit_captures_def)
  moreover have "current_player b \<noteq> 0" using pl by (auto simp: wf_player_def)
  ultimately show ?thesis using n(2) by auto
qed

lemma board_empty3_wf: "wf_board board_empty3"
  by (simp add: wf_board_def wf_cells_def board_empty3_def GoBoard_init_def py_range_def
      list_all_iff)

lemma board_empty3_player: "wf_player board_empty3"
  by (simp add: wf_player_def board_empty3_def GoBoard_init_def)

lemma first_move: "make_move board_empty3 0 0 = Some (True, after_one)"
  by code_simp

lemma second_move: "make_move after_one 0 1 = Some (True, after_two)"
  by code_simp

lemma first_undo: "undo_move after_two = (True, after_undo)"
  by code_simp

lemma is_valid_move_ko:
  assumes "ko_position b = Some (r, c)" and "cell_get (board b) r c = Some v"
  shows "is_valid_move b r c = Some (False, b)"
  using assms by (simp add: is_valid_move_def)

lemma make_move_ko:
  assumes wf: "wf_board b" and pl: "wf_player b"
    and mm: "make_move b row col = Some (True, b1)"
  shows "wf_board b1 \<and> wf_player b1 \<and> valid_positions b1 = valid_positions b \<and>
         finite (vacated b1 (board b) (3 - current_player b)) \<and>
         (\<forall>q. vacated b1 (board b) (3 - current_player b) = {q} \<longrightarrow> ko_position b1 = Some q) \<and>
         (card (vacated b1 (board b) (3 - current_player b)) \<noteq> 1 \<longrightarrow> ko_position b1 = None) \<and>
         captured_white b1 + captured_black b1 =
           captured_white b + captured_black b +
             int (card (vacated b1 (board b) (3 - current_player b)))"
proof -
  let ?opp = "3 - current_player b"
  have ok: "is_valid_move b row col = Some (True, b)" using mm by (rule make_move_True_valid)
  have empty: "cell_get (board b) row col = Some 0" using ok by (rule is_valid_move_True_empty)
  define p where "p = (py_norm (bsize b) row, py_norm (bsize b) col)"
  note n = cell_norm[OF wf empty, folded p_def]
  from make_move_legal[OF wf pl ok] mm obtain bd2 b3 ko where
    bd2: "cell_set (board b) row col (current_player b) = Some bd2"
    and rem: "removal_of (stone_placed b bd2) ?opp b3"
    and ko: "if card (changed (stone_placed b bd2) b3) = 1
             then ko_scan b3 (board b) ?opp = Some ko else ko = None"
    and b1: "b1 = finish_move
               (credit_captures b3 (int (card (changed (stone_placed b bd2) b3)))) row col ko"
    by auto
  let ?B2 = "stone_placed b bd2"
  note f = removal_of_fields[OF rem]
  have wf3: "wf_board b3" using rem by (simp add: removal_of_def)
  have v3: "valid_positions b3 = valid_positions b" using f(1) by (simp add: valid_positions_def)
  have v2: "valid_positions ?B2 = valid_positions b"
    by (simp add: valid_positions_def stone_placed_def)
  have bd2': "bd2 = board (place_stone b p (current_player b))"
    using bd2 n(3)[of "current_player b"] by simp
  have st2: "stone_at (board ?B2) q = (if q = p then current_player b else stone_at (board b) q)"
    if "q \<in> valid_positions b" for q
    using stone_at_place_stone[OF wf n(1) that, of "current_player b"]
    by (simp add: bd2' stone_placed_def)
  have opp: "?opp \<noteq> 0" "?opp \<noteq> current_player b" using pl by (auto simp: wf_player_def)
  have vac: "vacated b3 (board b) ?opp = changed ?B2 b3"
  proof (intro set_eqI iffI)
    fix q assume "q \<in> vacated b3 (board b) ?opp"
    then have q: "q \<in> valid_positions b" "stone_at (board b) q = ?opp" "stone_at (board b3) q = 0"
      by (auto simp: vacated_def v3)
    then have "q \<noteq> p" using n(2) opp by auto
    then show "q \<in> changed ?B2 b3" using q st2[OF q(1)] opp by (simp add: changed_def v2)
  next
    fix q assume c: "q \<in> changed ?B2 b3"
    then have q: "q \<in> valid_positions b" by (simp add: changed_def v2)
    from c rem have s: "stone_at (board ?B2) q = ?opp" "stone_at (board b3) q = 0"
      by (auto simp: removal_of_def)
    then have "q \<noteq> p" using st2[OF q] opp by auto
    then show "q \<in> vacated b3 (board b) ?opp" using s q st2[OF q] by (simp add: vacated_def v3)
  qed
  have vac1: "vacated b1 (board b) ?opp = vacated b3 (board b) ?opp"
    using f(1) by (simp add: vacated_def b1 finish_move_def credit_captures_def valid_positions_def)
  have wfp: "wf_cells (bsize b3) (board b)" using wf f(1) by (simp add: wf_board_def)
  have ko1: "ko_position b1 = ko" by (simp add: b1 finish_move_def)
  have a: "ko_position b1 = Some q" if "vacated b1 (board b) ?opp = {q}" for q
  proof -
    have one: "vacated b3 (board b) ?opp = {q}" using that vac1 by simp
    then have "card (changed ?B2 b3) = 1" using vac by simp
    with ko have "ko_scan b3 (board b) ?opp = Some ko" by simp
    moreover have "ko_scan b3 (board b) ?opp = Some (Some q)"
      using wf3 wfp one by (rule ko_scan_unique)
    ultimately show ?thesis using ko1 by simp
  qed
  have b: "ko_position b1 = None" if "card (vacated b1 (board b) ?opp) \<noteq> 1"
    using that ko ko1 vac vac1 by (simp split: if_splits)
  have c: "captured_white b1 + captured_black b1 =
           captured_white b + captured_black b + int (card (vacated b1 (board b) ?opp))"
  proof -
    have "captured_white b1 + captured_black b1 =
            captured_white b + captured_black b + int (card (changed ?B2 b3))"
      using f by (simp add: b1 finish_move_def credit_captures_def)
    then show ?thesis unfolding vac1 vac .
  qed
  have "wf_board b1" using wf3 by (simp add: wf_board_def b1 finish_move_def credit_captures_def)
  moreover have "wf_player b1"
    using pl f by (auto simp: wf_player_def b1 finish_move_def credit_captures_def)
  moreover have "valid_positions b1 = valid_positions b"
    using f(1) by (simp add: valid_positions_def b1 finish_move_def credit_captures_def)
  moreover have "finite (vacated b1 (board b) ?opp)"
    using vac vac1 finite_changed by simp
  ultimately show ?thesis using a b c by blast
qed

section \<open>The list of legal moves\<close>

lemma sorted_py_range: "sorted_wrt (<) (py_range n)"
  by (simp add: py_range_def sorted_wrt_map)

lemma sorted_product:
  "sorted_wrt (<) xs \<Longrightarrow> sorted_wrt (<) ys \<Longrightarrow> sorted_wrt row_major_less (List.product xs ys)"
proof (induction xs)
  case Nil
  then show ?case by simp
next
  case (Cons x xs)
  have "sorted_wrt row_major_less (map (Pair x) ys)"
    using Cons.prems(2) by (simp add: sorted_wrt_map row_major_less_def)
  moreover have "sorted_wrt row_major_less (List.product xs ys)"
    using Cons by simp
  moreover have "\<forall>p\<in>set (map (Pair x) ys). \<forall>q\<in>set (List.product xs ys). row_major_less p q"
    using Cons.prems(1) by (auto simp: row_major_less_def)
  ultimately show ?case by (simp add: sorted_wrt_append)
qed

lemma sorted_all_positions: "sorted_wrt row_major_less (all_positions b)"
  by (simp add: all_positions_def sorted_product sorted_py_range)

lemma legal_at_iff_valid_move:
  assumes "wf_board b" "wf_player b" "p \<in> valid_positions b"
  shows "legal_at b p \<longleftrightarrow> is_valid_move b (fst p) (snd p) = Some (True, b)"
  using is_valid_move_wf[OF assms(1,3,2)] by auto

lemma board_ko_wf: "wf_board board_ko"
  by (simp add: wf_board_def wf_cells_def board_ko_def)

lemma board_ko_player: "wf_player board_ko"
  by (simp add: wf_player_def board_ko_def)

lemma board_corner_wf: "wf_board board_corner" "wf_board board_corner_capture"
  by (simp_all add: wf_board_def wf_cells_def board_corner_def board_corner_capture_def
      GoBoard_init_def)

lemma board_corner_player: "wf_player board_corner" "wf_player board_corner_capture"
  by (simp_all add: wf_player_def board_corner_def board_corner_capture_def GoBoard_init_def)

lemma board_corner_valid:
  "(0, 0) \<in> valid_positions board_corner" "(0, 0) \<in> valid_positions board_corner_capture"
  by (simp_all add: valid_positions_iff board_corner_def board_corner_capture_def GoBoard_init_def)

lemma board_corner_moves:
  "is_valid_move board_corner 0 0 = Some (False, board_corner)"
  "is_valid_move board_corner_capture 0 0 = Some (True, board_corner_capture)"
  by code_simp+

lemma ko_b2_wf: "wf_board ko_b2" "wf_player ko_b2"
  by (simp_all add: wf_board_def wf_cells_def wf_player_def ko_b2_def)

lemma ko_b2_move: "make_move ko_b2 0 1 = Some (True, ko_b3)"
  by code_simp

lemma ko_b3_move: "make_move ko_b3 2 2 = Some (True, ko_b4)"
  by code_simp

lemma ko_b3_vacated: "vacated ko_b3 (board ko_b2) (3 - current_player ko_b2) = {(0, 0)}"
  by code_simp

lemma ko_b4_legal: "is_valid_move ko_b4 0 0 = Some (True, ko_b4)"
  by code_simp

lemma corner_placed_wf: "wf_board corner_placed"
  by (simp add: corner_placed_def wf_place_stone board_corner_wf board_corner_valid)

lemma corner_placed_group: "get_group corner_placed 0 0 = Some [(0, 0)]"
  by code_simp

lemma corner_placed_liberties: "count_liberties corner_placed [(0, 0)] = Some 0"
  by code_simp

lemma corner_placed_no_liberty:
  "liberty_set corner_placed (group_of corner_placed (0, 0)) = {}"
proof -
  have v: "(0, 0) \<in> valid_positions corner_placed"
    using board_corner_valid(2) by (simp add: corner_placed_def)
  from get_group_wf[OF corner_placed_wf v] corner_placed_group
  have "set [(0, 0)] = (if stone_at (board corner_placed) (0, 0) = 0 then {}
                        else group_of corner_placed (0, 0))"
    by simp
  then have g: "group_of corner_placed (0, 0) = {(0, 0)}"
    by (simp split: if_splits)
  from count_liberties_wf[OF corner_placed_wf, of "[(0, 0)]"] corner_placed_liberties
  have "card (liberty_set corner_placed {(0, 0)}) = 0" by simp
  then show ?thesis using g by (simp add: finite_liberty_set)
qed

section \<open>Counting stones\<close>

lemma distinct_py_range: "distinct (py_range n)"
  by (simp add: py_range_def distinct_map inj_on_def)

lemma distinct_all_positions: "distinct (all_positions b)"
  by (simp add: all_positions_def distinct_product distinct_py_range)

lemma count_stones_card:
  "count_stones b c = card {q \<in> valid_positions b. stone_at (board b) q = c}"
proof -
  have "distinct (filter (\<lambda>q. stone_at (board b) q = c) (all_positions b))"
    using distinct_all_positions by simp
  from distinct_card[OF this] show ?thesis
    by (simp add: count_stones_def set_all_positions)
qed


section \<open>The evaluation loops\<close>








section \<open>Rejected moves\<close>

text \<open>
  Claim C4. When \<^verbatim>\<open>is_valid_move\<close> answers false for a cell, \<^verbatim>\<open>make_move\<close> returns false
  and the whole board object (grid, player to move, both capture counters, history, ko
  position and previous grid) is what it was before the call; trying the same move again
  therefore fails in the same way.
\<close>

theorem make_move_illegal_unchanged:
  assumes "is_valid_move b row col = Some (False, b')"
  shows "b' = b \<and> make_move b row col = Some (False, b) \<and>
         (\<exists>b1. make_move b row col = Some (False, b1) \<and> make_move b1 row col = Some (False, b1))"
proof -
  have eq: "b' = b" using assms by (rule is_valid_move_board)
  with assms have "make_move b row col = Some (False, b)"
    by (simp add: make_move_def)
  with eq show ?thesis by simp
qed


lemma board_occupied_illegal: "is_valid_move board_occupied 0 1 = Some (False, board_occupied)"
  by (simp add: is_valid_move_def board_occupied_def GoBoard_init_def cell_get_def py_get_def)

theorem make_move_illegal_unchanged_witness:
  "is_valid_move board_occupied 0 1 = Some (False, board_occupied) \<and>
   make_move board_occupied 0 1 = Some (False, board_occupied)"
  using make_move_illegal_unchanged[OF board_occupied_illegal] board_occupied_illegal by simp

section \<open>Applying a move and taking it back\<close>

text \<open>
  Claim C3. For a well-formed board and a move that \<^verbatim>\<open>is_valid_move\<close> accepts,
  \<^verbatim>\<open>make_move\<close> succeeds, an immediate \<^verbatim>\<open>undo_move\<close> succeeds too, and the board that
  results has the grid, the player to move and the length of the move history that it had
  before the move. Nothing is said about the two capture counters.
\<close>

theorem make_move_undo_roundtrip:
  assumes "wf_board b" and "wf_player b" and "is_valid_move b row col = Some (True, b0)"
  shows "\<exists>b1 b2. make_move b row col = Some (True, b1) \<and> undo_move b1 = (True, b2) \<and>
           board b2 = board b \<and> current_player b2 = current_player b \<and>
           length (move_history b2) = length (move_history b)"
proof -
  from make_move_legal_fields[OF assms] obtain b1 where
    b1: "make_move b row col = Some (True, b1)" "previous_board b1 = Some (board b)"
    "current_player b1 = 3 - current_player b"
    "move_history b1 = move_history b @ [(row, col, current_player b)]"
    by blast
  from undo_move_after[OF b1(2) b1(4)] b1 show ?thesis by simp
qed

theorem make_move_undo_roundtrip_witness:
  "\<exists>b1 b2. make_move board_occupied 1 1 = Some (True, b1) \<and> undo_move b1 = (True, b2) \<and>
           board b2 = board board_occupied \<and> current_player b2 = current_player board_occupied \<and>
           length (move_history b2) = length (move_history board_occupied)"
  using make_move_undo_roundtrip[OF board_occupied_wf board_occupied_player board_occupied_legal] .

section \<open>Undoing twice\<close>

text \<open>
  Claim C10. After two successful calls of \<^verbatim>\<open>make_move\<close> and one successful
  \<^verbatim>\<open>undo_move\<close>, a second \<^verbatim>\<open>undo_move\<close> succeeds as well (the history still holds the
  first move and \<^verbatim>\<open>previous_board\<close> is still set), but it does not bring back the position
  from before the first move: \<^verbatim>\<open>previous_board\<close> is left as it was by both calls, so the
  grid stays the one after the first move, while one more history entry is removed and the
  player to move is flipped once more.
\<close>

theorem double_undo_keeps_cells:
  assumes wf: "wf_board b" and pl: "wf_player b"
    and m1: "make_move b r1 c1 = Some (True, b1)"
    and m2: "make_move b1 r2 c2 = Some (True, b2)"
    and u1: "undo_move b2 = (True, b3)"
  shows "\<exists>b4. undo_move b3 = (True, b4) \<and> board b3 = board b1 \<and> board b4 = board b1 \<and>
           board b4 \<noteq> board b \<and> previous_board b4 = previous_board b2 \<and>
           move_history b3 = move_history b @ [(r1, c1, current_player b)] \<and>
           move_history b4 = move_history b \<and>
           current_player b4 = 3 - current_player b3 \<and> current_player b4 = current_player b"
proof -
  have v1: "is_valid_move b r1 c1 = Some (True, b)" using m1 by (rule make_move_True_valid)
  have v2: "is_valid_move b1 r2 c2 = Some (True, b1)" using m2 by (rule make_move_True_valid)
  from make_move_legal_fields[OF wf pl v1] m1 have
    f1: "wf_board b1" "wf_player b1" "current_player b1 = 3 - current_player b"
    "move_history b1 = move_history b @ [(r1, c1, current_player b)]"
    by auto
  from make_move_legal_fields[OF f1(1,2) v2] m2 have
    f2: "previous_board b2 = Some (board b1)" "current_player b2 = 3 - current_player b1"
    "move_history b2 = move_history b1 @ [(r2, c2, current_player b1)]"
    by auto
  have b3: "b3 = b2\<lparr>move_history := move_history b1, board := board b1,
                     current_player := 3 - current_player b2,
                     captured_black := 0, captured_white := 0, ko_position := None\<rparr>"
    using undo_move_after[OF f2(1) f2(3)] u1 by simp
  have p3: "previous_board b3 = Some (board b1)"
    and h3: "move_history b3 = move_history b @ [(r1, c1, current_player b)]"
    using f2(1) f1(4) by (simp_all add: b3)
  note u2 = undo_move_after[OF p3 h3]
  have ne: "board b1 \<noteq> board b" using wf pl m1 by (rule make_move_changes_board)
  show ?thesis
    using u2 ne f1(3) f2(1,2) h3 by (simp add: b3)
qed

theorem double_undo_keeps_cells_witness:
  "\<exists>b4. undo_move after_undo = (True, b4) \<and> board after_undo = board after_one \<and>
     board b4 = board after_one \<and> board b4 \<noteq> board board_empty3 \<and>
     previous_board b4 = previous_board after_two \<and>
     move_history after_undo = move_history board_empty3 @ [(0, 0, current_player board_empty3)] \<and>
     move_history b4 = move_history board_empty3 \<and>
     current_player b4 = 3 - current_player after_undo \<and>
     current_player b4 = current_player board_empty3"
  using double_undo_keeps_cells[OF board_empty3_wf board_empty3_player first_move second_move
      first_undo] .

section \<open>The score\<close>



section \<open>Stones, captures and the length of the history\<close>

text \<open>
  Claim C6. The number of stones on the board plus the two capture counters should equal the
  number of moves in the history in every position reached by moves and undos. The moves keep
  that balance, \<^verbatim>\<open>undo_move\<close> does not: in the first game below two moves are played and
  taken back by two undos, and the second undo leaves one stone on a board with an empty
  history; in the second game a move is taken back after a capture, which resets the capture
  counter while the captured stone stays off the board.
\<close>

theorem undo_breaks_stone_balance:
  "stone_balance board_empty3 \<and>
   make_move board_empty3 0 0 = Some (True, after_one) \<and> stone_balance after_one \<and>
   make_move after_one 0 1 = Some (True, after_two) \<and> stone_balance after_two \<and>
   undo_move after_two = (True, after_undo) \<and> stone_balance after_undo \<and>
   fst (undo_move after_undo) \<and> \<not> stone_balance (snd (undo_move after_undo)) \<and>
   capture_line = Some after_capture \<and> stone_balance after_capture \<and>
   fst (undo_move after_capture) \<and> \<not> stone_balance (snd (undo_move after_capture))"
  by code_simp

section \<open>Legality\<close>

text \<open>
  Claim C2. For a cell on a well-formed board, \<^verbatim>\<open>is_valid_move\<close> returns true exactly when
  the cell is empty, is not the ko point, and the move is not suicide. Suicide means: with the
  stone of the player to move placed on the cell, the group of that stone (the stones of its
  colour connected to it through adjacent cells) has no liberty (no adjacent empty cell), and
  no adjacent group of the other colour is left without a liberty. So an empty cell other
  than the ko point on which the stone captures is legal whatever the liberties of the placed
  stone. The test returns the board as it received it.
\<close>

theorem is_valid_move_iff:
  assumes "wf_board b" and "wf_player b" and "(row, col) \<in> valid_positions b"
  shows "is_valid_move b row col =
           Some (stone_at (board b) (row, col) = 0 \<and> ko_position b \<noteq> Some (row, col) \<and>
                 \<not> (liberty_set (place_stone b (row, col) (current_player b))
                       (group_of (place_stone b (row, col) (current_player b)) (row, col)) = {} \<and>
                     \<not> captures_at b (row, col) (current_player b)), b) \<and>
         (stone_at (board b) (row, col) = 0 \<and> ko_position b \<noteq> Some (row, col) \<and>
          captures_at b (row, col) (current_player b)
            \<longrightarrow> is_valid_move b row col = Some (True, b))"
  using is_valid_move_wf[OF assms(1,3,2)] by (simp add: legal_at_def suicide_at_def)

theorem is_valid_move_iff_witness:
  "is_valid_move board_corner 0 0 = Some (False, board_corner) \<and>
   stone_at (board board_corner) (0, 0) = 0 \<and> ko_position board_corner = None \<and>
   liberty_set (place_stone board_corner (0, 0) 1)
     (group_of (place_stone board_corner (0, 0) 1) (0, 0)) = {} \<and>
   \<not> captures_at board_corner (0, 0) 1 \<and>
   is_valid_move board_corner_capture 0 0 = Some (True, board_corner_capture) \<and>
   liberty_set (place_stone board_corner_capture (0, 0) 1)
     (group_of (place_stone board_corner_capture (0, 0) 1) (0, 0)) = {} \<and>
   captures_at board_corner_capture (0, 0) 1"
proof -
  have f: "stone_at (board board_corner) (0, 0) = 0" "ko_position board_corner = None"
    "current_player board_corner = 1"
    "stone_at (board board_corner_capture) (0, 0) = 0" "ko_position board_corner_capture = None"
    "current_player board_corner_capture = 1"
    by (simp_all add: board_corner_def board_corner_capture_def GoBoard_init_def stone_at_def)
  from is_valid_move_iff[OF board_corner_wf(1) board_corner_player(1) board_corner_valid(1)]
    is_valid_move_iff[OF board_corner_wf(2) board_corner_player(2) board_corner_valid(2)]
    board_corner_moves f corner_placed_no_liberty[unfolded corner_placed_def]
  show ?thesis by auto
qed

section \<open>Enumerating the legal moves\<close>

text \<open>
  Claim C9. \<^verbatim>\<open>get_valid_moves\<close> returns exactly the cells that \<^verbatim>\<open>is_valid_move\<close> accepts,
  in row-major order (rows ascending, columns ascending within a row); none of them is
  occupied or the ko point, and the board is returned unchanged.
\<close>

theorem get_valid_moves_exact:
  assumes "wf_board b" and "wf_player b"
  shows "\<exists>ms. get_valid_moves b = Some (ms, b) \<and>
           ms = filter (\<lambda>(row, col). is_valid_move b row col = Some (True, b)) (all_positions b) \<and>
           sorted_wrt row_major_less ms \<and>
           (\<forall>p\<in>set ms. p \<in> valid_positions b \<and> stone_at (board b) p = 0 \<and>
                        ko_position b \<noteq> Some p)"
proof -
  let ?ms = "filter (legal_at b) (all_positions b)"
  have gm: "get_valid_moves b = Some (?ms, b)" using assms by (rule get_valid_moves_wf)
  have "?ms = filter (\<lambda>(row, col). is_valid_move b row col = Some (True, b)) (all_positions b)"
  proof (rule filter_cong[OF refl])
    fix p assume "p \<in> set (all_positions b)"
    then have "p \<in> valid_positions b" by (simp add: set_all_positions)
    from legal_at_iff_valid_move[OF assms this]
    show "legal_at b p = (case p of (row, col) \<Rightarrow> is_valid_move b row col = Some (True, b))"
      by (cases p) simp
  qed
  moreover have "sorted_wrt row_major_less ?ms"
    using sorted_all_positions by (rule sorted_wrt_filter)
  moreover have "\<forall>p\<in>set ?ms. p \<in> valid_positions b \<and> stone_at (board b) p = 0 \<and>
                        ko_position b \<noteq> Some p"
    by (auto simp: legal_at_def set_all_positions)
  ultimately show ?thesis using gm by simp
qed

theorem get_valid_moves_exact_witness:
  "get_valid_moves board_ko = Some ([(0, 2), (1, 1), (1, 2), (2, 0), (2, 1), (2, 2)], board_ko) \<and>
   (\<exists>ms. get_valid_moves board_ko = Some (ms, board_ko) \<and>
           ms = filter (\<lambda>(row, col). is_valid_move board_ko row col = Some (True, board_ko))
                  (all_positions board_ko) \<and>
           sorted_wrt row_major_less ms \<and>
           (\<forall>p\<in>set ms. p \<in> valid_positions board_ko \<and> stone_at (board board_ko) p = 0 \<and>
                        ko_position board_ko \<noteq> Some p))"
proof
  show "get_valid_moves board_ko =
          Some ([(0, 2), (1, 1), (1, 2), (2, 0), (2, 1), (2, 2)], board_ko)"
    by code_simp
  show "\<exists>ms. get_valid_moves board_ko = Some (ms, board_ko) \<and>
           ms = filter (\<lambda>(row, col). is_valid_move board_ko row col = Some (True, board_ko))
                  (all_positions board_ko) \<and>
           sorted_wrt row_major_less ms \<and>
           (\<forall>p\<in>set ms. p \<in> valid_positions board_ko \<and> stone_at (board board_ko) p = 0 \<and>
                        ko_position board_ko \<noteq> Some p)"
    using get_valid_moves_exact[OF board_ko_wf board_ko_player] .
qed

section \<open>The ko point\<close>

text \<open>
  Claim C5, as amended. For every successfully applied move on a well-formed board: when
  exactly one cell that held an opposing stone before the move is empty after it, the move
  sets \<^verbatim>\<open>ko_position\<close> to that cell; when the number of such cells is not one, it clears
  \<^verbatim>\<open>ko_position\<close>; the number of such cells is what the move adds to the capture counters.
  Playing on a ko point that was just set is illegal on the following move. Once a further
  move has cleared the ko point, the ko rule no longer forbids the cell: playing there is
  legal exactly when the cell is empty and the move is not suicide.
\<close>

theorem ko_point_after_move:
  assumes "wf_board b" and "wf_player b" and "make_move b row col = Some (True, b1)"
  shows "(\<forall>q. vacated b1 (board b) (3 - current_player b) = {q} \<longrightarrow> ko_position b1 = Some q) \<and>
         (card (vacated b1 (board b) (3 - current_player b)) \<noteq> 1 \<longrightarrow> ko_position b1 = None) \<and>
         captured_white b1 + captured_black b1 =
           captured_white b + captured_black b +
             int (card (vacated b1 (board b) (3 - current_player b))) \<and>
         (\<forall>q. ko_position b1 = Some q \<longrightarrow>
              is_valid_move b1 (fst q) (snd q) = Some (False, b1)) \<and>
         (\<forall>q r2 c2 b2. ko_position b1 = Some q \<and> make_move b1 r2 c2 = Some (True, b2) \<and>
              ko_position b2 = None \<longrightarrow>
              is_valid_move b2 (fst q) (snd q) =
                Some (stone_at (board b2) q = 0 \<and> \<not> suicide_at b2 q (current_player b2), b2))"
proof -
  let ?V = "vacated b1 (board b) (3 - current_player b)"
  note k = make_move_ko[OF assms]
  have wf1: "wf_board b1" and pl1: "wf_player b1" and v1: "valid_positions b1 = valid_positions b"
    and fin: "finite ?V" using k by simp_all
  have single: "?V = {q}" if "ko_position b1 = Some q" for q
  proof -
    have "card ?V = 1" using that k by (cases "card ?V = 1") simp_all
    then obtain q' where q': "?V = {q'}" by (auto simp: card_1_singleton_iff)
    then have "ko_position b1 = Some q'" using k by blast
    with that q' show ?thesis by simp
  qed
  have d: "is_valid_move b1 (fst q) (snd q) = Some (False, b1)" if "ko_position b1 = Some q" for q
  proof -
    have "q \<in> ?V" using single[OF that] by simp
    then have "q \<in> valid_positions b1" by (simp add: vacated_def)
    from wf_board_get[OF wf1 this] that show ?thesis
      by (intro is_valid_move_ko) simp_all
  qed
  have e: "is_valid_move b2 (fst q) (snd q) =
             Some (stone_at (board b2) q = 0 \<and> \<not> suicide_at b2 q (current_player b2), b2)"
    if "ko_position b1 = Some q" "make_move b1 r2 c2 = Some (True, b2)" "ko_position b2 = None"
    for q r2 c2 b2
  proof -
    have "q \<in> ?V" using single[OF that(1)] by simp
    then have qv: "q \<in> valid_positions b1" by (simp add: vacated_def)
    note k2 = make_move_ko[OF wf1 pl1 that(2)]
    have "q \<in> valid_positions b2" using k2 qv by simp
    moreover have "wf_board b2" "wf_player b2" using k2 by simp_all
    ultimately have "is_valid_move b2 (fst q) (snd q) = Some (legal_at b2 q, b2)"
      by (intro is_valid_move_wf)
    then show ?thesis using that(3) by (simp add: legal_at_def)
  qed
  show ?thesis using k d e by blast
qed

theorem ko_point_after_move_witness:
  "vacated ko_b3 (board ko_b2) (3 - current_player ko_b2) = {(0, 0)} \<and>
   ko_position ko_b3 = Some (0, 0) \<and>
   captured_white ko_b3 + captured_black ko_b3 = captured_white ko_b2 + captured_black ko_b2 + 1 \<and>
   is_valid_move ko_b3 0 0 = Some (False, ko_b3) \<and>
   ko_position ko_b4 = None \<and>
   is_valid_move ko_b4 0 0 = Some (True, ko_b4) \<and>
   stone_at (board ko_b4) (0, 0) = 0 \<and> \<not> suicide_at ko_b4 (0, 0) (current_player ko_b4)"
proof -
  note t = ko_point_after_move[OF ko_b2_wf ko_b2_move]
  note t1 = t[THEN conjunct1, rule_format]
  note t3 = t[THEN conjunct2, THEN conjunct2, THEN conjunct1]
  note t4 = t[THEN conjunct2, THEN conjunct2, THEN conjunct2, THEN conjunct1, rule_format]
  note t5 = t[THEN conjunct2, THEN conjunct2, THEN conjunct2, THEN conjunct2, rule_format]
  have ko: "ko_position ko_b3 = Some (0, 0)"
    using ko_b3_vacated by (rule t1)
  have cap: "captured_white ko_b3 + captured_black ko_b3 =
               captured_white ko_b2 + captured_black ko_b2 + 1"
    using t3 ko_b3_vacated by simp
  have bar: "is_valid_move ko_b3 0 0 = Some (False, ko_b3)"
    using t4[OF ko] by simp
  have k4: "ko_position ko_b4 = None" by (simp add: ko_b4_def)
  have "is_valid_move ko_b4 0 0 =
          Some (stone_at (board ko_b4) (0, 0) = 0 \<and>
                \<not> suicide_at ko_b4 (0, 0) (current_player ko_b4), ko_b4)"
    using t5[of "(0, 0)" 2 2 ko_b4] ko ko_b3_move k4 by simp
  then have free: "stone_at (board ko_b4) (0, 0) = 0 \<and>
                   \<not> suicide_at ko_b4 (0, 0) (current_player ko_b4)"
    using ko_b4_legal by simp
  show ?thesis using ko_b3_vacated ko cap bar k4 ko_b4_legal free by simp
qed

text \<open>
  The claim as stated says that the cell is legal again once another move has cleared the ko
  point. It need not be. In the first game White captures at (0, 0), Black answers at (1, 1),
  which clears the ko point, and on the move after that the cell (0, 0) is still illegal: a
  stone there would have no liberty and capture nothing. In the second game Black captures
  at (0, 0), White and Black each play elsewhere, the ko point is cleared, and White, who was
  barred from (0, 0) by the ko rule, still cannot play there for the same reason.
\<close>

theorem ko_point_not_legal_again:
  "play board_empty3 [(0, 0), (0, 1), (0, 2), (2, 0), (2, 1), (1, 0)] = Some ko_a6 \<and>
   ko_position ko_a6 = Some (0, 0) \<and>
   is_valid_move ko_a6 0 0 = Some (False, ko_a6) \<and>
   make_move ko_a6 1 1 = Some (True, ko_a7) \<and>
   ko_position ko_a7 = None \<and>
   is_valid_move ko_a7 0 0 = Some (False, ko_a7) \<and>
   play board_empty3 [(1, 0), (0, 0), (0, 1)] = Some ko_b3 \<and>
   ko_position ko_b3 = Some (0, 0) \<and>
   is_valid_move ko_b3 0 0 = Some (False, ko_b3) \<and>
   make_move ko_b3 2 2 = Some (True, ko_b4) \<and>
   ko_position ko_b4 = None \<and>
   make_move ko_b4 2 0 = Some (True, ko_b5) \<and>
   ko_position ko_b5 = None \<and>
   is_valid_move ko_b5 0 0 = Some (False, ko_b5)"
  by code_simp

section \<open>The evaluation function\<close>



end
